theory Spec2Isabelle
  imports Complex_Main
begin

section \<open>Characters and strings\<close>

text \<open>
  File names are Python \<^verbatim>\<open>str\<close> values. The model takes them as \<^typ>\<open>string\<close> and reads
  every character class the way Python does on ASCII text: \<^verbatim>\<open>\d\<close> is \<^verbatim>\<open>[0-9]\<close>,
  \<^verbatim>\<open>\w\<close> is \<^verbatim>\<open>[A-Za-z0-9_]\<close>, and \<^verbatim>\<open>str.lower\<close> maps \<^verbatim>\<open>A-Z\<close> to \<^verbatim>\<open>a-z\<close> and
  leaves every other character alone.
\<close>

definition lower_char :: "char \<Rightarrow> char" where
  "lower_char c =
     (case map_of (zip ''ABCDEFGHIJKLMNOPQRSTUVWXYZ'' ''abcdefghijklmnopqrstuvwxyz'') c of
        Some d \<Rightarrow> d
      | None \<Rightarrow> c)"

definition lower :: "string \<Rightarrow> string" where
  "lower s = map lower_char s"

definition is_digit :: "char \<Rightarrow> bool" where
  "is_digit c \<longleftrightarrow> c \<in> set ''0123456789''"

definition is_word :: "char \<Rightarrow> bool" where
  "is_word c \<longleftrightarrow>
     c \<in> set ''abcdefghijklmnopqrstuvwxyzABCDEFGHIJKLMNOPQRSTUVWXYZ0123456789_''"

definition newline :: char where
  "newline = CHR 0x0A"

section \<open>Regular expressions as the \<^verbatim>\<open>re\<close> module matches them\<close>

text \<open>
  The patterns of the program use literals, \<^verbatim>\<open>.\<close>, \<^verbatim>\<open>\d\<close>, concatenation, alternation,
  capturing groups, \<^verbatim>\<open>?\<close> and \<^verbatim>\<open>+\<close>, the anchors \<^verbatim>\<open>\b\<close> and \<^verbatim>\<open>$\<close>, and one negative look-ahead.
  \<^verbatim>\<open>+\<close> only ever follows a single-character atom, so \<open>Many1\<close> takes a character set.
\<close>

datatype cset = CLit char | CAny | CDigit

datatype regex =
    Eps
  | Chr cset
  | Then regex regex
  | Or regex regex
  | Opt regex
  | Many1 cset
  | WordB
  | Eol
  | NotAhead regex
  | Group nat regex

text \<open>
  \<open>cs_ok ic cs c\<close>: the character \<open>c\<close> is in the set \<open>cs\<close>; \<open>ic\<close> is the flag
  \<^verbatim>\<open>re.IGNORECASE\<close>. The dot does not match a newline (no \<^verbatim>\<open>re.DOTALL\<close>).
\<close>

fun cs_ok :: "bool \<Rightarrow> cset \<Rightarrow> char \<Rightarrow> bool" where
  "cs_ok ic (CLit a) c = (if ic then lower_char c = lower_char a else c = a)"
| "cs_ok ic CAny c = (c \<noteq> newline)"
| "cs_ok ic CDigit c = is_digit c"

text \<open>
  A matcher state is the text already passed, reversed (its head is the character just
  before the current position), the text still ahead, and the groups captured so far.
\<close>

type_synonym mstate = "string \<times> string \<times> (nat \<rightharpoonup> string)"

definition word_before :: "string \<Rightarrow> bool" where
  "word_before l = (case l of [] \<Rightarrow> False | c # _ \<Rightarrow> is_word c)"

text \<open>Greedy repetition of a character set: the longest run first, then shorter ones.\<close>

fun many :: "bool \<Rightarrow> cset \<Rightarrow> mstate \<Rightarrow> mstate list" where
  "many ic c (l, [], g) = [(l, [], g)]"
| "many ic c (l, x # r, g) =
     (if cs_ok ic c x then many ic c (x # l, r, g) @ [(l, x # r, g)] else [(l, x # r, g)])"

text \<open>
  \<open>rmatch ic p st\<close> lists every way \<open>p\<close> matches at state \<open>st\<close>, in the order in which the
  backtracking matcher of \<^verbatim>\<open>re\<close> tries them: the head of the list is the match it
  reports. \<^verbatim>\<open>\b\<close> holds where exactly one of the two neighbouring characters is a word
  character; \<^verbatim>\<open>$\<close> holds at the end of the text and just before a final newline.
\<close>

fun rmatch :: "bool \<Rightarrow> regex \<Rightarrow> mstate \<Rightarrow> mstate list" where
  "rmatch ic Eps st = [st]"
| "rmatch ic (Chr c) (l, r, g) =
     (case r of [] \<Rightarrow> [] | x # r' \<Rightarrow> if cs_ok ic c x then [(x # l, r', g)] else [])"
| "rmatch ic (Then a b) st = concat (map (rmatch ic b) (rmatch ic a st))"
| "rmatch ic (Or a b) st = rmatch ic a st @ rmatch ic b st"
| "rmatch ic (Opt a) st = rmatch ic a st @ [st]"
| "rmatch ic (Many1 c) (l, r, g) =
     (case r of [] \<Rightarrow> [] | x # r' \<Rightarrow> if cs_ok ic c x then many ic c (x # l, r', g) else [])"
| "rmatch ic WordB (l, r, g) = (if word_before l \<noteq> word_before r then [(l, r, g)] else [])"
| "rmatch ic Eol (l, r, g) = (if r = [] \<or> r = [newline] then [(l, r, g)] else [])"
| "rmatch ic (NotAhead a) st = (case rmatch ic a st of [] \<Rightarrow> [st] | _ # _ \<Rightarrow> [])"
| "rmatch ic (Group n a) (l, r, g) =
     map (\<lambda>(l', r', g'). (l', r', g'(n \<mapsto> rev (take (length l' - length l) l'))))
       (rmatch ic a (l, r, g))"

text \<open>The match object: where the match starts, its text (group 0) and its groups.\<close>

record re_match =
  m_start :: nat
  m_text :: string
  m_groups :: "nat \<rightharpoonup> string"

text \<open>\<^verbatim>\<open>re.search\<close>: the first position, from the left, at which the pattern matches.\<close>

fun search_from :: "bool \<Rightarrow> regex \<Rightarrow> string \<Rightarrow> string \<Rightarrow> re_match option" where
  "search_from ic p l r =
     (case rmatch ic p (l, r, Map.empty) of
        (l', r', g) # _ \<Rightarrow>
          Some \<lparr>m_start = length l, m_text = rev (take (length l' - length l) l'), m_groups = g\<rparr>
      | [] \<Rightarrow> (case r of [] \<Rightarrow> None | x # r' \<Rightarrow> search_from ic p (x # l) r'))"

definition re_search :: "bool \<Rightarrow> regex \<Rightarrow> string \<Rightarrow> re_match option" where
  "re_search ic p s = search_from ic p [] s"

text \<open>The truth value of \<^verbatim>\<open>re.search(...)\<close>: a match object is true, \<^verbatim>\<open>None\<close> is false.\<close>

definition re_test :: "bool \<Rightarrow> regex \<Rightarrow> string \<Rightarrow> bool" where
  "re_test ic p s = (case re_search ic p s of None \<Rightarrow> False | Some _ \<Rightarrow> True)"

subsection \<open>Writing patterns\<close>

fun lit :: "string \<Rightarrow> regex" where
  "lit [] = Eps"
| "lit [c] = Chr (CLit c)"
| "lit (c # cs) = Then (Chr (CLit c)) (lit cs)"

fun seqs :: "regex list \<Rightarrow> regex" where
  "seqs [] = Eps"
| "seqs [a] = a"
| "seqs (a # as) = Then a (seqs as)"

fun alts :: "regex list \<Rightarrow> regex" where
  "alts [] = Eps"
| "alts [a] = a"
| "alts (a # as) = Or a (alts as)"

text \<open>\<^verbatim>\<open>\b(w1|w2|...)\b\<close>, \<^verbatim>\<open>\bw\b\<close>, \<^verbatim>\<open>\.ext$\<close> and \<^verbatim>\<open>\.(e1|e2)$\<close>.\<close>

definition words :: "string list \<Rightarrow> regex" where
  "words ws = seqs [WordB, Group 1 (alts (map lit ws)), WordB]"

definition word :: "string \<Rightarrow> regex" where
  "word w = seqs [WordB, lit w, WordB]"

definition ext :: "string \<Rightarrow> regex" where
  "ext e = seqs [Chr (CLit CHR ''.''), lit e, Eol]"

definition exts :: "string list \<Rightarrow> regex" where
  "exts es = seqs [Chr (CLit CHR ''.''), Group 1 (alts (map lit es)), Eol]"

section \<open>The pattern tables of \<^verbatim>\<open>FileAnalyzer.__init__\<close>\<close>

text \<open>
  Each table is a Python dictionary literal with distinct keys; iteration follows the order
  of the literal, so a table is the list of its (label, pattern) pairs in that order.
\<close>

definition quality_patterns :: "(string \<times> regex) list" where
  "quality_patterns = [
    (''CAM'', words [''cam'', ''camrip'', ''cam-rip'']),
    (''CAMRip'', words [''camrip'', ''cam-rip'']),
    (''TS'', words [''ts'', ''telesync'', ''tele-sync'']),
    (''TC'', words [''tc'', ''telecine'', ''tele-cine'']),
    (''WP'', words [''wp'', ''workprint'', ''work-print'']),
    (''DVDScr'', words [''dvdscr'', ''dvd-scr'', ''dvdscreener'']),
    (''R5'', word ''r5''),
    (''DVDRip'', words [''dvdrip'', ''dvd-rip'']),
    (''BDRip'', words [''bdrip'', ''bd-rip'', ''bluray-rip'']),
    (''BRRip'', words [''brrip'', ''br-rip'']),
    (''HDRip'', words [''hdrip'', ''hd-rip'']),
    (''HDTV'', words [''hdtv'', ''hd-tv'']),
    (''PDTV'', words [''pdtv'', ''pd-tv'']),
    (''DSRip'', words [''dsrip'', ''ds-rip'']),
    (''WEB-DL'', words [''web-dl'', ''webdl'', ''web.dl'']),
    (''WEBRip'', words [''webrip'', ''web-rip'', ''web.rip'']),
    (''WEB'', seqs [WordB, lit ''web'', NotAhead (alts [lit ''rip'', lit ''dl'']), WordB]),
    (''BluRay'', words [''bluray'', ''blu-ray'', ''bdrip'', ''bdremux'']),
    (''UHD'', words [''uhd'', ''ultra.hd'', ''4k.uhd'']),
    (''REMUX'', words [''remux'', ''re-mux'']),
    (''REPACK'', words [''repack'', ''re-pack'']),
    (''PROPER'', words [''proper'']),
    (''REAL'', words [''real'']),
    (''RETAIL'', words [''retail'']),
    (''UNCUT'', words [''uncut'']),
    (''EXTENDED'', words [''extended'', ''ext'']),
    (''REMASTERED'', words [''remastered'', ''remaster''])]"

definition resolution_patterns :: "(string \<times> regex) list" where
  "resolution_patterns = [
    (''4K'', words [''4k'', ''2160p'', ''uhd'', ''ultra.hd'']),
    (''2K'', words [''2k'', ''1440p'']),
    (''1080p'', words [''1080p'', ''1080i'', ''full.hd'', ''fullhd'']),
    (''720p'', words [''720p'', ''720i'', ''hd'']),
    (''576p'', words [''576p'', ''576i'']),
    (''480p'', words [''480p'', ''480i'', ''sd'']),
    (''360p'', words [''360p'']),
    (''240p'', words [''240p''])]"

text \<open>\<^verbatim>\<open>h\.?264\<close>: an \<^verbatim>\<open>h\<close>, an optional literal dot, then the digits.\<close>

definition h26x :: "string \<Rightarrow> regex" where
  "h26x ds = seqs [lit ''h'', Opt (Chr (CLit CHR ''.'')), lit ds]"

definition video_codec_patterns :: "(string \<times> regex) list" where
  "video_codec_patterns = [
    (''H.264'', seqs [WordB, Group 1 (alts [h26x ''264'', lit ''x264'', lit ''avc'']), WordB]),
    (''H.265'', seqs [WordB, Group 1 (alts [h26x ''265'', lit ''x265'', lit ''hevc'']), WordB]),
    (''VP9'', word ''vp9''),
    (''VP8'', word ''vp8''),
    (''XviD'', word ''xvid''),
    (''DivX'', word ''divx''),
    (''AV1'', word ''av1'')]"

definition audio_codec_patterns :: "(string \<times> regex) list" where
  "audio_codec_patterns = [
    (''AAC'', word ''aac''),
    (''AC3'', words [''ac3'', ''ac-3'']),
    (''DTS'', words [''dts'', ''dts-hd'']),
    (''MP3'', word ''mp3''),
    (''FLAC'', word ''flac''),
    (''OGG'', word ''ogg''),
    (''Opus'', word ''opus''),
    (''EAC3'', words [''eac3'', ''eac-3'', ''e-ac-3''])]"

definition format_patterns :: "(string \<times> regex) list" where
  "format_patterns = [
    (''MKV'', ext ''mkv''),
    (''MP4'', ext ''mp4''),
    (''AVI'', ext ''avi''),
    (''WMV'', ext ''wmv''),
    (''FLV'', ext ''flv''),
    (''MOV'', ext ''mov''),
    (''M4V'', ext ''m4v''),
    (''WebM'', ext ''webm''),
    (''OGV'', ext ''ogv''),
    (''MTS'', ext ''mts''),
    (''M2TS'', ext ''m2ts''),
    (''TS'', ext ''ts''),
    (''MPG'', exts [''mpg'', ''mpeg'']),
    (''VOB'', ext ''vob''),
    (''ASF'', ext ''asf''),
    (''3GP'', ext ''3gp'')]"

definition language_patterns :: "(string \<times> regex) list" where
  "language_patterns = [
    (''English'', words [''eng'', ''english'', ''en'']),
    (''Hindi'', words [''hin'', ''hindi'', ''hi'']),
    (''Spanish'', words [''spa'', ''spanish'', ''es'']),
    (''French'', words [''fre'', ''french'', ''fr'']),
    (''German'', words [''ger'', ''german'', ''de'']),
    (''Italian'', words [''ita'', ''italian'', ''it'']),
    (''Japanese'', words [''jpn'', ''japanese'', ''ja'']),
    (''Korean'', words [''kor'', ''korean'', ''ko'']),
    (''Chinese'', words [''chi'', ''chinese'', ''zh'']),
    (''Russian'', words [''rus'', ''russian'', ''ru''])]"

definition source_patterns :: "(string \<times> regex) list" where
  "source_patterns = [
    (''Netflix'', words [''netflix'', ''nf'']),
    (''Amazon Prime'', words [''amzn'', ''amazon'']),
    (''Disney+'', words [''dsnp'', ''disney'']),
    (''HBO Max'', words [''hmax'', ''hbo'']),
    (''Apple TV+'', words [''atvp'', ''apple'']),
    (''Hulu'', word ''hulu''),
    (''Peacock'', word ''pcok''),
    (''Paramount+'', word ''pmtp''),
    (''YouTube'', words [''youtube'', ''yt'']),
    (''BBC iPlayer'', word ''bbc''),
    (''iTunes'', word ''itunes'')]"

text \<open>The patterns of the additional details, written inline in \<^verbatim>\<open>analyze_filename\<close>.\<close>

definition subtitles_pattern :: regex where
  "subtitles_pattern = words [''sub'', ''subs'', ''subtitle'', ''subtitles'']"

definition multiple_audio_pattern :: regex where
  "multiple_audio_pattern = words [''dual'', ''multi'', ''multilang'']"

definition three_d_pattern :: regex where
  "three_d_pattern = word ''3d''"

text \<open>
  \<^verbatim>\<open>\b(hdr|hdr10|dolby.vision)\b\<close>: the dot between \<^verbatim>\<open>dolby\<close> and \<^verbatim>\<open>vision\<close> is not
  escaped in the source, so it is the any-character atom.
\<close>

definition hdr_pattern :: regex where
  "hdr_pattern =
     seqs [WordB,
           Group 1 (alts [lit ''hdr'', lit ''hdr10'', seqs [lit ''dolby'', Chr CAny, lit ''vision'']]),
           WordB]"

text \<open>\<^verbatim>\<open>\b(19|20)\d{2}\b\<close>, with \<^verbatim>\<open>\d{2}\<close> written as two digits.\<close>

definition year_pattern :: regex where
  "year_pattern =
     seqs [WordB, Group 1 (alts [lit ''19'', lit ''20'']), Chr CDigit, Chr CDigit, WordB]"

text \<open>
  \<^verbatim>\<open>s(\d+)e(\d+)\<close>, \<^verbatim>\<open>season.?(\d+).?episode.?(\d+)\<close> and \<^verbatim>\<open>(\d+)x(\d+)\<close>, in the order of
  the list \<^verbatim>\<open>se_patterns\<close>.
\<close>

definition se_patterns :: "regex list" where
  "se_patterns = [
     seqs [lit ''s'', Group 1 (Many1 CDigit), lit ''e'', Group 2 (Many1 CDigit)],
     seqs [lit ''season'', Opt (Chr CAny), Group 1 (Many1 CDigit), Opt (Chr CAny),
           lit ''episode'', Opt (Chr CAny), Group 2 (Many1 CDigit)],
     seqs [Group 1 (Many1 CDigit), lit ''x'', Group 2 (Many1 CDigit)]]"

section \<open>The analyzer\<close>

datatype py_error = AttributeError | OverflowError

text \<open>The values stored in \<^verbatim>\<open>format_details\<close>: \<^verbatim>\<open>None\<close>, a boolean or a string.\<close>

datatype pyval = PNone | PBool bool | PStr string

record analysis_result =
  filename :: string
  file_type :: string
  quality :: "string option"
  resolution :: "string option"
  codec :: "string option"
  audio_codec :: "string option"
  language :: "string option"
  source :: "string option"
  format_details :: "(string \<times> pyval) list"

text \<open>
  One detection loop of \<^verbatim>\<open>analyze_filename\<close>: walk the table in order, take the label of
  the first pattern found in the lower-cased name and stop (\<^verbatim>\<open>break\<close>).
\<close>

fun first_label :: "(string \<times> regex) list \<Rightarrow> string \<Rightarrow> string option" where
  "first_label [] s = None"
| "first_label ((name, p) # rest) s =
     (if re_test True p s then Some name else first_label rest s)"

definition extract_year :: "string \<Rightarrow> string option" where
  "extract_year fn =
     (case re_search False year_pattern fn of Some m \<Rightarrow> Some (m_text m) | None \<Rightarrow> None)"

text \<open>
  \<^verbatim>\<open>str.zfill\<close>: pad with zeros on the left up to the width, after a leading sign if there
  is one; a string that is long enough comes back unchanged.
\<close>

definition zfill :: "nat \<Rightarrow> string \<Rightarrow> string" where
  "zfill w s =
     (if w \<le> length s then s
      else case s of
        [] \<Rightarrow> replicate w CHR ''0''
      | c # cs \<Rightarrow>
          if c = CHR ''+'' \<or> c = CHR ''-'' then c # replicate (w - length s) CHR ''0'' @ cs
          else replicate (w - length s) CHR ''0'' @ s)"

text \<open>
  The loop of \<^verbatim>\<open>_extract_season_episode\<close>. \<^verbatim>\<open>match.group(i)\<close> is \<^verbatim>\<open>None\<close> for a group
  that took no part in the match, and \<^verbatim>\<open>None.zfill\<close> raises \<^verbatim>\<open>AttributeError\<close>.
\<close>

fun se_scan :: "regex list \<Rightarrow> string \<Rightarrow> py_error + string option" where
  "se_scan [] s = Inr None"
| "se_scan (p # ps) s =
     (case re_search False p s of
        None \<Rightarrow> se_scan ps s
      | Some m \<Rightarrow>
          (case m_groups m 1 of
             None \<Rightarrow> Inl AttributeError
           | Some a \<Rightarrow>
               (case m_groups m 2 of
                  None \<Rightarrow> Inl AttributeError
                | Some b \<Rightarrow> Inr (Some (''S'' @ zfill 2 a @ ''E'' @ zfill 2 b)))))"

definition extract_season_episode :: "string \<Rightarrow> py_error + string option" where
  "extract_season_episode fn = se_scan se_patterns (lower fn)"

definition opt_str :: "string option \<Rightarrow> pyval" where
  "opt_str v = (case v of None \<Rightarrow> PNone | Some s \<Rightarrow> PStr s)"

definition analyze_filename :: "string \<Rightarrow> py_error + analysis_result" where
  "analyze_filename fn =
     (let filename_lower = lower fn in
      case extract_season_episode fn of
        Inl e \<Rightarrow> Inl e
      | Inr se \<Rightarrow>
          Inr \<lparr>filename = fn,
               file_type =
                 (case first_label format_patterns filename_lower of
                    Some l \<Rightarrow> l
                  | None \<Rightarrow> ''Unknown''),
               quality = first_label quality_patterns filename_lower,
               resolution = first_label resolution_patterns filename_lower,
               codec = first_label video_codec_patterns filename_lower,
               audio_codec = first_label audio_codec_patterns filename_lower,
               language = first_label language_patterns filename_lower,
               source = first_label source_patterns filename_lower,
               format_details =
                 [(''has_subtitles'', PBool (re_test False subtitles_pattern filename_lower)),
                  (''has_multiple_audio'',
                     PBool (re_test False multiple_audio_pattern filename_lower)),
                  (''is_3d'', PBool (re_test False three_d_pattern filename_lower)),
                  (''is_hdr'', PBool (re_test False hdr_pattern filename_lower)),
                  (''year'', opt_str (extract_year fn)),
                  (''season_episode'', opt_str se)]\<rparr>)"

section \<open>Rendering\<close>

text \<open>
  The decorative markers of the report are the only characters of the source outside ASCII.
  Each is written here as the bytes of its UTF-8 encoding, as they stand in the source file.
\<close>

definition mark_film :: string where
  "mark_film =
     [CHR 0xEF, CHR 0xA3, CHR 0xBF, CHR 0xC3, CHR 0xBC, CHR 0xC3, CHR 0xA9, CHR 0xC2,
      CHR 0xA8]"

definition mark_folder :: string where
  "mark_folder =
     [CHR 0xEF, CHR 0xA3, CHR 0xBF, CHR 0xC3, CHR 0xBC, CHR 0xC3, CHR 0xAC, CHR 0xC3,
      CHR 0x85]"

definition mark_disk :: string where
  "mark_disk =
     [CHR 0xEF, CHR 0xA3, CHR 0xBF, CHR 0xC3, CHR 0xBC, CHR 0xC3, CHR 0xAD, CHR 0xC3,
      CHR 0xA6]"

definition mark_clipboard :: string where
  "mark_clipboard =
     [CHR 0xEF, CHR 0xA3, CHR 0xBF, CHR 0xC3, CHR 0xBC, CHR 0xC3, CHR 0xAC, CHR 0xC3,
      CHR 0xA3]"

definition mark_magnifier :: string where
  "mark_magnifier =
     [CHR 0xEF, CHR 0xA3, CHR 0xBF, CHR 0xC3, CHR 0xBC, CHR 0xC3, CHR 0xAE, CHR 0xC3,
      CHR 0xA7]"

definition mark_bullet :: string where
  "mark_bullet =
     [CHR 0xE2, CHR 0x80, CHR 0x9A, CHR 0xC3, CHR 0x84, CHR 0xC2, CHR 0xA2]"

definition mark_screen :: string where
  "mark_screen =
     [CHR 0xEF, CHR 0xA3, CHR 0xBF, CHR 0xC3, CHR 0xBC, CHR 0xC3, CHR 0xAC, CHR 0xE2,
      CHR 0x88, CHR 0xAB]"

definition mark_movie_camera :: string where
  "mark_movie_camera =
     [CHR 0xEF, CHR 0xA3, CHR 0xBF, CHR 0xC3, CHR 0xBC, CHR 0xC3, CHR 0xA9, CHR 0xE2,
      CHR 0x80, CHR 0xA2]"

definition mark_speaker :: string where
  "mark_speaker =
     [CHR 0xEF, CHR 0xA3, CHR 0xBF, CHR 0xC3, CHR 0xBC, CHR 0xC3, CHR 0xAE, CHR 0xC3,
      CHR 0xA4]"

definition mark_globe :: string where
  "mark_globe =
     [CHR 0xEF, CHR 0xA3, CHR 0xBF, CHR 0xC3, CHR 0xBC, CHR 0xC3, CHR 0xA5, CHR 0xC3,
      CHR 0xAA]"

definition mark_calendar :: string where
  "mark_calendar =
     [CHR 0xEF, CHR 0xA3, CHR 0xBF, CHR 0xC3, CHR 0xBC, CHR 0xC3, CHR 0xAC, CHR 0xC3,
      CHR 0x96]"

definition mark_speech :: string where
  "mark_speech =
     [CHR 0xEF, CHR 0xA3, CHR 0xBF, CHR 0xC3, CHR 0xBC, CHR 0xC3, CHR 0xAD, CHR 0xC2,
      CHR 0xA8]"

definition mark_note :: string where
  "mark_note =
     [CHR 0xEF, CHR 0xA3, CHR 0xBF, CHR 0xC3, CHR 0xBC, CHR 0xC3, CHR 0xA9, CHR 0xC2,
      CHR 0xB5]"

definition mark_glasses :: string where
  "mark_glasses =
     [CHR 0xEF, CHR 0xA3, CHR 0xBF, CHR 0xC3, CHR 0xBC, CHR 0xC3, CHR 0xAF, CHR 0xE2,
      CHR 0x88, CHR 0x82, CHR 0xC3, CHR 0x94, CHR 0xE2, CHR 0x88, CHR 0x8F, CHR 0xC3,
      CHR 0xA8]"

definition mark_sparkles :: string where
  "mark_sparkles =
     [CHR 0xE2, CHR 0x80, CHR 0x9A, CHR 0xC3, CHR 0xBA, CHR 0xC2, CHR 0xAE]"

definition mark_check :: string where
  "mark_check =
     [CHR 0xE2, CHR 0x80, CHR 0x9A, CHR 0xC3, CHR 0xBA, CHR 0xC3, CHR 0x96]"

definition mark_camera :: string where
  "mark_camera =
     [CHR 0xEF, CHR 0xA3, CHR 0xBF, CHR 0xC3, CHR 0xBC, CHR 0xC3, CHR 0xAC, CHR 0xE2,
      CHR 0x88, CHR 0x91]"

definition mark_projector :: string where
  "mark_projector =
     [CHR 0xEF, CHR 0xA3, CHR 0xBF, CHR 0xC3, CHR 0xBC, CHR 0xC3, CHR 0xAC, CHR 0xCE,
      CHR 0xA9, CHR 0xC3, CHR 0x94, CHR 0xE2, CHR 0x88, CHR 0x8F, CHR 0xC3, CHR 0xA8]"

definition mark_disc :: string where
  "mark_disc =
     [CHR 0xEF, CHR 0xA3, CHR 0xBF, CHR 0xC3, CHR 0xBC, CHR 0xC3, CHR 0xAD, CHR 0xC3,
      CHR 0xB8]"

definition mark_gem :: string where
  "mark_gem =
     [CHR 0xEF, CHR 0xA3, CHR 0xBF, CHR 0xC3, CHR 0xBC, CHR 0xC3, CHR 0xAD, CHR 0xC3,
      CHR 0xA9]"

definition mark_crown :: string where
  "mark_crown =
     [CHR 0xEF, CHR 0xA3, CHR 0xBF, CHR 0xC3, CHR 0xBC, CHR 0xC3, CHR 0xAB, CHR 0xC3,
      CHR 0xAB]"

text \<open>The table of \<^verbatim>\<open>get_quality_emoji\<close>, and its default for a label that is not in it.\<close>

definition quality_emojis :: "(string \<times> string) list" where
  "quality_emojis = [
     (''CAM'', mark_camera),
     (''TS'', mark_projector),
     (''DVDRip'', mark_disc),
     (''BluRay'', mark_gem),
     (''WEB-DL'', mark_globe),
     (''WEBRip'', mark_globe),
     (''HDTV'', mark_screen),
     (''UHD'', mark_crown),
     (''REMUX'', mark_sparkles)]"

definition get_quality_emoji :: "string \<Rightarrow> string" where
  "get_quality_emoji q = (case map_of quality_emojis q of Some e \<Rightarrow> e | None \<Rightarrow> mark_film)"

subsection \<open>The size of a file\<close>

text \<open>
  \<^verbatim>\<open>format_file_size\<close> starts from an \<^verbatim>\<open>int\<close> and goes on with \<^verbatim>\<open>float\<close>s. A float is held
  here by its exact value, a rational: every float the function computes is the float of the
  byte count divided by a power of 1024 and is at least 1, so the division by \<^verbatim>\<open>1024.0\<close> is
  exact; the comparison of an \<^verbatim>\<open>int\<close> with \<^verbatim>\<open>1024.0\<close> is exact in Python; and the format
  \<^verbatim>\<open>.1f\<close> rounds the exact value correctly, a tie going to the even digit.
\<close>

datatype pynum = PInt int | PFloat rat

fun bit_length :: "nat \<Rightarrow> nat" where
  "bit_length n = (if n = 0 then 0 else Suc (bit_length (n div 2)))"

text \<open>
  The conversion of an \<^verbatim>\<open>int\<close> to a \<^verbatim>\<open>float\<close>: the nearest number with a 53-bit significand,
  a tie going to the even significand, and \<^verbatim>\<open>OverflowError\<close> when the rounded value
  reaches \<open>2 ^ 1024\<close>, past the largest float.
\<close>

definition float_overflow :: nat where
  "float_overflow = 2 ^ 1024"

definition float_of_int :: "int \<Rightarrow> py_error + rat" where
  "float_of_int n =
     (let a = nat \<bar>n\<bar>;
          sh = bit_length a - 53;
          q = a div 2 ^ sh;
          r = a mod 2 ^ sh;
          q' = (if 2 ^ sh < 2 * r \<or> (2 * r = 2 ^ sh \<and> odd q) then q + 1 else q);
          v = q' * 2 ^ sh
      in if float_overflow \<le> v then Inl OverflowError else Inr (of_int (sgn n * int v)))"

fun to_float :: "pynum \<Rightarrow> py_error + rat" where
  "to_float (PInt n) = float_of_int n"
| "to_float (PFloat x) = Inr x"

fun below_1024 :: "pynum \<Rightarrow> bool" where
  "below_1024 (PInt n) = (n < 1024)"
| "below_1024 (PFloat x) = (x < 1024)"

definition digit_char :: "nat \<Rightarrow> char" where
  "digit_char d = ''0123456789'' ! d"

fun show_nat :: "nat \<Rightarrow> string" where
  "show_nat n = (if n < 10 then [digit_char n] else show_nat (n div 10) @ [digit_char (n mod 10)])"

definition round_half_even :: "rat \<Rightarrow> int" where
  "round_half_even y =
     (let f = \<lfloor>y\<rfloor>; d = y - of_int f
      in if d < 1 / 2 then f else if 1 / 2 < d then f + 1 else if even f then f else f + 1)"

text \<open>\<^verbatim>\<open>format(x, ".1f")\<close> for a float of exact value \<open>x\<close>.\<close>

definition fmt_1f :: "rat \<Rightarrow> string" where
  "fmt_1f x =
     (let t = nat (round_half_even (10 * \<bar>x\<bar>))
      in (if x < 0 then ''-'' else []) @ show_nat (t div 10) @ ''.'' @ show_nat (t mod 10))"

text \<open>An \<^verbatim>\<open>int\<close> formatted with \<^verbatim>\<open>.1f\<close> is converted to a float first.\<close>

definition render_size :: "pynum \<Rightarrow> string \<Rightarrow> py_error + string" where
  "render_size v unit =
     (case to_float v of Inl e \<Rightarrow> Inl e | Inr x \<Rightarrow> Inr (fmt_1f x @ '' '' @ unit))"

fun size_loop :: "string list \<Rightarrow> pynum \<Rightarrow> py_error + string" where
  "size_loop [] v = render_size v ''PB''"
| "size_loop (unit # units) v =
     (if below_1024 v then render_size v unit
      else case to_float v of
        Inl e \<Rightarrow> Inl e
      | Inr x \<Rightarrow> size_loop units (PFloat (x / 1024)))"

text \<open>\<^verbatim>\<open>not size_bytes\<close> holds for \<^verbatim>\<open>None\<close> and for \<^verbatim>\<open>0\<close>.\<close>

definition format_file_size :: "int option \<Rightarrow> py_error + string" where
  "format_file_size size_bytes =
     (case size_bytes of
        None \<Rightarrow> Inr ''Unknown''
      | Some n \<Rightarrow>
          if n = 0 then Inr ''Unknown''
          else size_loop [''B'', ''KB'', ''MB'', ''GB'', ''TB''] (PInt n))"

subsection \<open>The report\<close>

record file_metadata =
  file_id :: string
  file_name :: string
  file_size :: "int option"
  mime_type :: "string option"
  file_unique_id :: string

text \<open>Truth values: \<^verbatim>\<open>None\<close>, \<^verbatim>\<open>False\<close> and the empty string are false.\<close>

fun truthy :: "pyval \<Rightarrow> bool" where
  "truthy PNone = False"
| "truthy (PBool b) = b"
| "truthy (PStr s) = (s \<noteq> [])"

text \<open>What an f-string prints for a value.\<close>

fun py_str :: "pyval \<Rightarrow> string" where
  "py_str PNone = ''None''"
| "py_str (PBool b) = (if b then ''True'' else ''False'')"
| "py_str (PStr s) = s"

text \<open>\<^verbatim>\<open>details.get(key)\<close>: the value, or \<^verbatim>\<open>None\<close> for a key that is not there.\<close>

definition dict_get :: "(string \<times> pyval) list \<Rightarrow> string \<Rightarrow> pyval" where
  "dict_get d k = (case map_of d k of Some v \<Rightarrow> v | None \<Rightarrow> PNone)"

text \<open>One line of the report for an optional label: nothing for \<^verbatim>\<open>None\<close> and for \<^verbatim>\<open>""\<close>.\<close>

definition label_line :: "string option \<Rightarrow> (string \<Rightarrow> string) \<Rightarrow> string" where
  "label_line v line = (case v of None \<Rightarrow> [] | Some s \<Rightarrow> if s = [] then [] else line s)"

text \<open>
  The second half of \<^verbatim>\<open>format_analysis_response\<close>, from the line "Detected Metadata" on: it
  goes on appending to the response built so far.
\<close>

definition add_detected_metadata :: "analysis_result \<Rightarrow> string \<Rightarrow> string" where
  "add_detected_metadata analysis response0 =
     (let response = response0 @ [newline] @ ''**'' @ mark_magnifier
                       @ '' Detected Metadata:**'' @ [newline];
          response = response @ mark_bullet @ '' **Format:** '' @ file_type analysis
                       @ [newline];
          response = response @ label_line (quality analysis)
                       (\<lambda>q. mark_bullet @ '' **Quality:** '' @ get_quality_emoji q
                              @ '' '' @ q @ [newline]);
          response = response @ label_line (resolution analysis)
                       (\<lambda>v. mark_bullet @ '' **Resolution:** '' @ mark_screen
                              @ '' '' @ v @ [newline]);
          response = response @ label_line (codec analysis)
                       (\<lambda>v. mark_bullet @ '' **Video Codec:** '' @ mark_movie_camera
                              @ '' '' @ v @ [newline]);
          response = response @ label_line (audio_codec analysis)
                       (\<lambda>v. mark_bullet @ '' **Audio Codec:** '' @ mark_speaker
                              @ '' '' @ v @ [newline]);
          response = response @ label_line (language analysis)
                       (\<lambda>v. mark_bullet @ '' **Language:** '' @ mark_globe
                              @ '' '' @ v @ [newline]);
          response = response @ label_line (source analysis)
                       (\<lambda>v. mark_bullet @ '' **Source:** '' @ mark_screen
                              @ '' '' @ v @ [newline]);
          details = format_details analysis;
          response =
            (if details = [] then response
             else
               (let response =
                      (if truthy (dict_get details ''year'')
                       then response @ mark_bullet @ '' **Year:** '' @ mark_calendar
                              @ '' '' @ py_str (dict_get details ''year'') @ [newline]
                       else response);
                    response =
                      (if truthy (dict_get details ''season_episode'')
                       then response @ mark_bullet @ '' **Episode:** '' @ mark_screen
                              @ '' '' @ py_str (dict_get details ''season_episode'')
                              @ [newline]
                       else response);
                    response =
                      (if truthy (dict_get details ''has_subtitles'')
                       then response @ mark_bullet @ '' **Subtitles:** '' @ mark_speech
                              @ '' Yes'' @ [newline]
                       else response);
                    response =
                      (if truthy (dict_get details ''has_multiple_audio'')
                       then response @ mark_bullet @ '' **Multi-Audio:** '' @ mark_note
                              @ '' Yes'' @ [newline]
                       else response);
                    response =
                      (if truthy (dict_get details ''is_3d'')
                       then response @ mark_bullet @ '' **3D:** '' @ mark_glasses
                              @ '' Yes'' @ [newline]
                       else response);
                    response =
                      (if truthy (dict_get details ''is_hdr'')
                       then response @ mark_bullet @ '' **HDR:** '' @ mark_sparkles
                              @ '' Yes'' @ [newline]
                       else response)
                in response))
      in response @ [newline] @ ''_Analysis completed successfully!_ '' @ mark_check)"

text \<open>
  \<^verbatim>\<open>format_analysis_response\<close>: the header and the file name, the lines of the file
  information when there is one, then the detected metadata. With a file information, the
  size is formatted first, and that can raise.
\<close>

definition format_analysis_response ::
    "analysis_result \<Rightarrow> file_metadata option \<Rightarrow> py_error + string" where
  "format_analysis_response analysis file_info =
     (let response = mark_film @ '' **File Analysis Results**'' @ [newline, newline];
          response = response @ mark_folder @ '' **Filename:** `'' @ filename analysis @ ''`''
                       @ [newline]
      in case file_info of
           None \<Rightarrow> Inr (add_detected_metadata analysis response)
         | Some fi \<Rightarrow>
             (case format_file_size (file_size fi) of
                Inl e \<Rightarrow> Inl e
              | Inr sz \<Rightarrow>
                  (let response = response @ mark_disk @ '' **File Size:** '' @ sz @ [newline];
                       response = response @ label_line (mime_type fi)
                                    (\<lambda>m. mark_clipboard @ '' **MIME Type:** `'' @ m @ ''`''
                                           @ [newline])
                   in Inr (add_detected_metadata analysis response))))"

section \<open>The analyzer over any character database\<close>

text \<open>
  A Python \<^verbatim>\<open>str\<close> is a sequence of Unicode characters, and \<^verbatim>\<open>\w\<close>, \<^verbatim>\<open>\b\<close>, \<^verbatim>\<open>\d\<close>,
  \<^verbatim>\<open>str.lower\<close> and \<^verbatim>\<open>re.IGNORECASE\<close> consult the Unicode database, which is no part of
  this program. The definitions above read it on ASCII text only. The definitions of this
  section are the same matcher and the same analyzer with the database as a parameter: the
  characters are of any type \<open>'c\<close>, and the parameter says
  \<^item> how an ASCII character of the source's literals reads as a character (\<open>asc\<close>),
  \<^item> what \<^verbatim>\<open>str.lower\<close> returns for a text (\<open>lower_u\<close>),
  \<^item> which characters \<^verbatim>\<open>\w\<close> and \<^verbatim>\<open>\d\<close> accept (\<open>word_u\<close>, \<open>digit_u\<close>),
  \<^item> which characters a literal of a pattern matches under \<^verbatim>\<open>re.IGNORECASE\<close> (\<open>ieq_u\<close>).
  Nothing is assumed of the parameter here; \<open>ascii\<close> below is the database of the first
  sections.
\<close>

record 'c ucd =
  asc :: "char \<Rightarrow> 'c"
  lower_u :: "'c list \<Rightarrow> 'c list"
  word_u :: "'c \<Rightarrow> bool"
  digit_u :: "'c \<Rightarrow> bool"
  ieq_u :: "char \<Rightarrow> 'c \<Rightarrow> bool"

definition ascii :: "char ucd" where
  "ascii =
     \<lparr>asc = (\<lambda>c. c), lower_u = lower, word_u = is_word, digit_u = is_digit,
      ieq_u = (\<lambda>a c. lower_char c = lower_char a)\<rparr>"

fun cs_ok_u :: "'c ucd \<Rightarrow> bool \<Rightarrow> cset \<Rightarrow> 'c \<Rightarrow> bool" where
  "cs_ok_u cc ic (CLit a) c = (if ic then ieq_u cc a c else c = asc cc a)"
| "cs_ok_u cc ic CAny c = (c \<noteq> asc cc newline)"
| "cs_ok_u cc ic CDigit c = digit_u cc c"

type_synonym 'c mstate_u = "'c list \<times> 'c list \<times> (nat \<rightharpoonup> 'c list)"

definition word_before_u :: "'c ucd \<Rightarrow> 'c list \<Rightarrow> bool" where
  "word_before_u cc l = (case l of [] \<Rightarrow> False | c # _ \<Rightarrow> word_u cc c)"

fun many_u :: "'c ucd \<Rightarrow> bool \<Rightarrow> cset \<Rightarrow> 'c mstate_u \<Rightarrow> 'c mstate_u list" where
  "many_u cc ic c (l, [], g) = [(l, [], g)]"
| "many_u cc ic c (l, x # r, g) =
     (if cs_ok_u cc ic c x then many_u cc ic c (x # l, r, g) @ [(l, x # r, g)]
      else [(l, x # r, g)])"

fun rmatch_u :: "'c ucd \<Rightarrow> bool \<Rightarrow> regex \<Rightarrow> 'c mstate_u \<Rightarrow> 'c mstate_u list" where
  "rmatch_u cc ic Eps st = [st]"
| "rmatch_u cc ic (Chr c) (l, r, g) =
     (case r of [] \<Rightarrow> [] | x # r' \<Rightarrow> if cs_ok_u cc ic c x then [(x # l, r', g)] else [])"
| "rmatch_u cc ic (Then a b) st = concat (map (rmatch_u cc ic b) (rmatch_u cc ic a st))"
| "rmatch_u cc ic (Or a b) st = rmatch_u cc ic a st @ rmatch_u cc ic b st"
| "rmatch_u cc ic (Opt a) st = rmatch_u cc ic a st @ [st]"
| "rmatch_u cc ic (Many1 c) (l, r, g) =
     (case r of [] \<Rightarrow> [] | x # r' \<Rightarrow> if cs_ok_u cc ic c x then many_u cc ic c (x # l, r', g) else [])"
| "rmatch_u cc ic WordB (l, r, g) =
     (if word_before_u cc l \<noteq> word_before_u cc r then [(l, r, g)] else [])"
| "rmatch_u cc ic Eol (l, r, g) = (if r = [] \<or> r = [asc cc newline] then [(l, r, g)] else [])"
| "rmatch_u cc ic (NotAhead a) st = (case rmatch_u cc ic a st of [] \<Rightarrow> [st] | _ # _ \<Rightarrow> [])"
| "rmatch_u cc ic (Group n a) (l, r, g) =
     map (\<lambda>(l', r', g'). (l', r', g'(n \<mapsto> rev (take (length l' - length l) l'))))
       (rmatch_u cc ic a (l, r, g))"

record 'c match_u =
  start_u :: nat
  text_u :: "'c list"
  groups_u :: "nat \<rightharpoonup> 'c list"

fun search_from_u :: "'c ucd \<Rightarrow> bool \<Rightarrow> regex \<Rightarrow> 'c list \<Rightarrow> 'c list \<Rightarrow> 'c match_u option" where
  "search_from_u cc ic p l r =
     (case rmatch_u cc ic p (l, r, Map.empty) of
        (l', r', g) # _ \<Rightarrow>
          Some \<lparr>start_u = length l, text_u = rev (take (length l' - length l) l'), groups_u = g\<rparr>
      | [] \<Rightarrow> (case r of [] \<Rightarrow> None | x # r' \<Rightarrow> search_from_u cc ic p (x # l) r'))"

definition re_search_u :: "'c ucd \<Rightarrow> bool \<Rightarrow> regex \<Rightarrow> 'c list \<Rightarrow> 'c match_u option" where
  "re_search_u cc ic p s = search_from_u cc ic p [] s"

definition re_test_u :: "'c ucd \<Rightarrow> bool \<Rightarrow> regex \<Rightarrow> 'c list \<Rightarrow> bool" where
  "re_test_u cc ic p s = (case re_search_u cc ic p s of None \<Rightarrow> False | Some _ \<Rightarrow> True)"

fun first_label_u :: "'c ucd \<Rightarrow> (string \<times> regex) list \<Rightarrow> 'c list \<Rightarrow> string option" where
  "first_label_u cc [] s = None"
| "first_label_u cc ((name, p) # rest) s =
     (if re_test_u cc True p s then Some name else first_label_u cc rest s)"

definition extract_year_u :: "'c ucd \<Rightarrow> 'c list \<Rightarrow> 'c list option" where
  "extract_year_u cc fn =
     (case re_search_u cc False year_pattern fn of Some m \<Rightarrow> Some (text_u m) | None \<Rightarrow> None)"

definition zfill_u :: "'c ucd \<Rightarrow> nat \<Rightarrow> 'c list \<Rightarrow> 'c list" where
  "zfill_u cc w s =
     (if w \<le> length s then s
      else case s of
        [] \<Rightarrow> replicate w (asc cc CHR ''0'')
      | c # cs \<Rightarrow>
          if c = asc cc CHR ''+'' \<or> c = asc cc CHR ''-''
          then c # replicate (w - length s) (asc cc CHR ''0'') @ cs
          else replicate (w - length s) (asc cc CHR ''0'') @ s)"

fun se_scan_u :: "'c ucd \<Rightarrow> regex list \<Rightarrow> 'c list \<Rightarrow> py_error + 'c list option" where
  "se_scan_u cc [] s = Inr None"
| "se_scan_u cc (p # ps) s =
     (case re_search_u cc False p s of
        None \<Rightarrow> se_scan_u cc ps s
      | Some m \<Rightarrow>
          (case groups_u m 1 of
             None \<Rightarrow> Inl AttributeError
           | Some a \<Rightarrow>
               (case groups_u m 2 of
                  None \<Rightarrow> Inl AttributeError
                | Some b \<Rightarrow>
                    Inr (Some (asc cc CHR ''S'' # zfill_u cc 2 a
                               @ asc cc CHR ''E'' # zfill_u cc 2 b)))))"

definition extract_season_episode_u :: "'c ucd \<Rightarrow> 'c list \<Rightarrow> py_error + 'c list option" where
  "extract_season_episode_u cc fn = se_scan_u cc se_patterns (lower_u cc fn)"

datatype 'c pyval_u = UNone | UBool bool | UStr "'c list"

definition opt_str_u :: "'c list option \<Rightarrow> 'c pyval_u" where
  "opt_str_u v = (case v of None \<Rightarrow> UNone | Some s \<Rightarrow> UStr s)"

record 'c analysis_result_u =
  filename_u :: "'c list"
  file_type_u :: string
  quality_u :: "string option"
  resolution_u :: "string option"
  codec_u :: "string option"
  audio_codec_u :: "string option"
  language_u :: "string option"
  source_u :: "string option"
  format_details_u :: "(string \<times> 'c pyval_u) list"

definition analyze_filename_u :: "'c ucd \<Rightarrow> 'c list \<Rightarrow> py_error + 'c analysis_result_u" where
  "analyze_filename_u cc fn =
     (let filename_lower = lower_u cc fn in
      case extract_season_episode_u cc fn of
        Inl e \<Rightarrow> Inl e
      | Inr se \<Rightarrow>
          Inr \<lparr>filename_u = fn,
               file_type_u =
                 (case first_label_u cc format_patterns filename_lower of
                    Some l \<Rightarrow> l
                  | None \<Rightarrow> ''Unknown''),
               quality_u = first_label_u cc quality_patterns filename_lower,
               resolution_u = first_label_u cc resolution_patterns filename_lower,
               codec_u = first_label_u cc video_codec_patterns filename_lower,
               audio_codec_u = first_label_u cc audio_codec_patterns filename_lower,
               language_u = first_label_u cc language_patterns filename_lower,
               source_u = first_label_u cc source_patterns filename_lower,
               format_details_u =
                 [(''has_subtitles'', UBool (re_test_u cc False subtitles_pattern filename_lower)),
                  (''has_multiple_audio'',
                     UBool (re_test_u cc False multiple_audio_pattern filename_lower)),
                  (''is_3d'', UBool (re_test_u cc False three_d_pattern filename_lower)),
                  (''is_hdr'', UBool (re_test_u cc False hdr_pattern filename_lower)),
                  (''year'', opt_str_u (extract_year_u cc fn)),
                  (''season_episode'', opt_str_u se)]\<rparr>)"

section \<open>Vocabulary of the properties\<close>

text \<open>The matcher state at offset \<open>k\<close> of the text \<open>r\<close>, with \<open>l\<close> already behind.\<close>

definition at_pos :: "string \<Rightarrow> string \<Rightarrow> nat \<Rightarrow> mstate" where
  "at_pos l r k = (rev (take k r) @ l, drop k r, Map.empty)"

text \<open>The match object built from the first result at offset \<open>k\<close>.\<close>

definition match_at :: "string \<Rightarrow> string \<Rightarrow> nat \<Rightarrow> mstate \<Rightarrow> re_match" where
  "match_at l r k st =
     \<lparr>m_start = length l + k,
      m_text = rev (take (length (fst st) - (length l + k)) (fst st)),
      m_groups = snd (snd st)\<rparr>"

text \<open>The group numbers a pattern can write.\<close>

fun groups_of :: "regex \<Rightarrow> nat set" where
  "groups_of (Group n a) = insert n (groups_of a)"
| "groups_of (Then a b) = groups_of a \<union> groups_of b"
| "groups_of (Or a b) = groups_of a \<union> groups_of b"
| "groups_of (Opt a) = groups_of a"
| "groups_of (NotAhead a) = groups_of a"
| "groups_of _ = {}"

text \<open>
  A sufficient, syntactic condition for "every match of the pattern captures group \<open>n\<close>, and
  what it captures is a run of digits": the group wraps \<^verbatim>\<open>\d+\<close> and lies on the spine of the
  concatenation, with no later part writing the same group.
\<close>

fun sets_group :: "nat \<Rightarrow> regex \<Rightarrow> bool" where
  "sets_group n (Group k a) = (k = n \<and> a = Many1 CDigit)"
| "sets_group n (Then a b) = (sets_group n b \<or> (sets_group n a \<and> n \<notin> groups_of b))"
| "sets_group n _ = False"

text \<open>A non-empty string of decimal digits.\<close>

definition digits :: "string \<Rightarrow> bool" where
  "digits t \<longleftrightarrow> t \<noteq> [] \<and> list_all is_digit t"

text \<open>The seven categories and the table of each.\<close>

datatype category = Format | Quality | Resolution | Video_Codec | Audio_Codec | Language | Source

fun rules :: "category \<Rightarrow> (string \<times> regex) list" where
  "rules Format = format_patterns"
| "rules Quality = quality_patterns"
| "rules Resolution = resolution_patterns"
| "rules Video_Codec = video_codec_patterns"
| "rules Audio_Codec = audio_codec_patterns"
| "rules Language = language_patterns"
| "rules Source = source_patterns"

text \<open>
  The head of every report, and the lines a file information adds: the size, then the MIME
  type when it is not empty.
\<close>

definition report_header :: "analysis_result \<Rightarrow> string" where
  "report_header a =
     mark_film @ '' **File Analysis Results**'' @ [newline, newline]
     @ mark_folder @ '' **Filename:** `'' @ filename a @ ''`'' @ [newline]"

definition file_info_lines :: "string \<Rightarrow> string option \<Rightarrow> string" where
  "file_info_lines sz mime =
     mark_disk @ '' **File Size:** '' @ sz @ [newline]
     @ (case mime of
          None \<Rightarrow> []
        | Some m \<Rightarrow>
            if m = [] then []
            else mark_clipboard @ '' **MIME Type:** `'' @ m @ ''`'' @ [newline])"


text \<open>
  The trailing extension segment of a file name: the text after its last dot, and nothing
  for a name without a dot.
\<close>

definition extension :: "string \<Rightarrow> string option" where
  "extension s =
     (if CHR ''.'' \<in> set s then Some (rev (takeWhile (\<lambda>c. c \<noteq> CHR ''.'') (rev s))) else None)"

text \<open>
  The text \<open>y\<close> spells the extension \<open>e\<close> in any letter case, with at most a final newline
  after it (which \<^verbatim>\<open>$\<close> lets pass).
\<close>

definition ext_tail :: "string \<Rightarrow> string \<Rightarrow> bool" where
  "ext_tail e y \<longleftrightarrow> (\<exists>t rest. y = t @ rest \<and> lower t = lower e \<and> (rest = [] \<or> rest = [newline]))"

text \<open>The text \<open>t\<close> is the literal \<open>w\<close>, character by character.\<close>

definition lit_ok :: "bool \<Rightarrow> string \<Rightarrow> string \<Rightarrow> bool" where
  "lit_ok ic w t \<longleftrightarrow> list_all2 (\<lambda>a c. cs_ok ic (CLit a) c) w t"

text \<open>The text \<open>r\<close> is a dot followed by the extension \<open>e\<close>, up to its end.\<close>

definition ext_here :: "string \<Rightarrow> string \<Rightarrow> bool" where
  "ext_here e r \<longleftrightarrow> (\<exists>y. r = CHR ''.'' # y \<and> ext_tail e y)"


text \<open>
  The same vocabulary over any character database: the matcher state at an offset, the match
  object built there, and a non-empty run of decimal digits.
\<close>

definition at_pos_u :: "'c list \<Rightarrow> 'c list \<Rightarrow> nat \<Rightarrow> 'c mstate_u" where
  "at_pos_u l r k = (rev (take k r) @ l, drop k r, Map.empty)"

definition match_at_u :: "'c list \<Rightarrow> 'c list \<Rightarrow> nat \<Rightarrow> 'c mstate_u \<Rightarrow> 'c match_u" where
  "match_at_u l r k st =
     \<lparr>start_u = length l + k,
      text_u = rev (take (length (fst st) - (length l + k)) (fst st)),
      groups_u = snd (snd st)\<rparr>"

definition digits_u :: "'c ucd \<Rightarrow> 'c list \<Rightarrow> bool" where
  "digits_u cc t \<longleftrightarrow> t \<noteq> [] \<and> list_all (digit_u cc) t"

text \<open>
  The field of the result that holds the label selected for a category (\<^verbatim>\<open>file_type\<close> is a
  plain string whose value \<^verbatim>\<open>"Unknown"\<close> stands for "no label"; the other fields are
  optional), and "rule \<open>i\<close> of category \<open>c\<close> is found in the lower-cased file name".
\<close>

fun selected_u :: "category \<Rightarrow> 'c analysis_result_u \<Rightarrow> string option" where
  "selected_u Format res =
     (if file_type_u res = ''Unknown'' then None else Some (file_type_u res))"
| "selected_u Quality res = quality_u res"
| "selected_u Resolution res = resolution_u res"
| "selected_u Video_Codec res = codec_u res"
| "selected_u Audio_Codec res = audio_codec_u res"
| "selected_u Language res = language_u res"
| "selected_u Source res = source_u res"

definition rule_matches_u :: "'c ucd \<Rightarrow> category \<Rightarrow> nat \<Rightarrow> 'c list \<Rightarrow> bool" where
  "rule_matches_u cc c i fn = re_test_u cc True (snd (rules c ! i)) (lower_u cc fn)"



section \<open>The first-label loop and the search\<close>

lemma first_label_Some_iff:
  "first_label T s = Some l \<longleftrightarrow>
     (\<exists>i<length T. fst (T ! i) = l \<and> re_test True (snd (T ! i)) s
        \<and> (\<forall>j<i. \<not> re_test True (snd (T ! j)) s))"
proof (induction T)
  case Nil
  then show ?case by simp
next
  case (Cons a T)
  obtain name p where a: "a = (name, p)" by (cases a)
  show ?case
  proof (cases "re_test True p s")
    case True
    show ?thesis
    proof
      assume "first_label (a # T) s = Some l"
      with True a have "name = l" by simp
      with True a show "\<exists>i<length (a # T). fst ((a # T) ! i) = l \<and> re_test True (snd ((a # T) ! i)) s
        \<and> (\<forall>j<i. \<not> re_test True (snd ((a # T) ! j)) s)"
        by (intro exI[of _ 0]) simp
    next
      assume "\<exists>i<length (a # T). fst ((a # T) ! i) = l \<and> re_test True (snd ((a # T) ! i)) s
        \<and> (\<forall>j<i. \<not> re_test True (snd ((a # T) ! j)) s)"
      then obtain i where i: "fst ((a # T) ! i) = l" "\<forall>j<i. \<not> re_test True (snd ((a # T) ! j)) s"
        by blast
      have "i = 0"
      proof (rule ccontr)
        assume "i \<noteq> 0"
        then have "\<not> re_test True (snd ((a # T) ! 0)) s" using i(2) by blast
        with True a show False by simp
      qed
      with i(1) True a show "first_label (a # T) s = Some l" by simp
    qed
  next
    case False
    have "(\<exists>i<length (a # T). fst ((a # T) ! i) = l \<and> re_test True (snd ((a # T) ! i)) s
        \<and> (\<forall>j<i. \<not> re_test True (snd ((a # T) ! j)) s)) \<longleftrightarrow>
      (\<exists>i<length T. fst (T ! i) = l \<and> re_test True (snd (T ! i)) s
        \<and> (\<forall>j<i. \<not> re_test True (snd (T ! j)) s))" (is "?L \<longleftrightarrow> ?R")
    proof
      assume ?L
      then obtain i where i: "i < length (a # T)" "fst ((a # T) ! i) = l"
        "re_test True (snd ((a # T) ! i)) s" "\<forall>j<i. \<not> re_test True (snd ((a # T) ! j)) s"
        by blast
      from i(3) False a have "i \<noteq> 0" by (cases i) auto
      then obtain k where k: "i = Suc k" by (cases i) auto
      have "\<forall>j<k. \<not> re_test True (snd (T ! j)) s"
        using i(4) k by (metis Suc_less_eq nth_Cons_Suc)
      with i(1,2,3) k show ?R by auto
    next
      assume ?R
      then obtain i where i: "i < length T" "fst (T ! i) = l"
        "re_test True (snd (T ! i)) s" "\<forall>j<i. \<not> re_test True (snd (T ! j)) s"
        by blast
      have "\<forall>j<Suc i. \<not> re_test True (snd ((a # T) ! j)) s"
        using i(4) False a by (auto simp: less_Suc_eq_0_disj)
      with i(1,2,3) show ?L by (intro exI[of _ "Suc i"]) auto
    qed
    with False Cons.IH show ?thesis by (simp add: a)
  qed
qed

declare search_from.simps [simp del]

lemma search_from_Nil:
  "search_from ic p l [] =
     (case rmatch ic p (l, [], Map.empty) of
        (l', r', g) # _ \<Rightarrow>
          Some \<lparr>m_start = length l, m_text = rev (take (length l' - length l) l'), m_groups = g\<rparr>
      | [] \<Rightarrow> None)"
  by (subst search_from.simps) (simp split: list.splits)

lemma search_from_Cons:
  "search_from ic p l (x # r) =
     (case rmatch ic p (l, x # r, Map.empty) of
        (l', r', g) # _ \<Rightarrow>
          Some \<lparr>m_start = length l, m_text = rev (take (length l' - length l) l'), m_groups = g\<rparr>
      | [] \<Rightarrow> search_from ic p (x # l) r)"
  by (subst search_from.simps) (simp split: list.splits)

lemma at_pos_0: "at_pos l r 0 = (l, r, Map.empty)"
  by (simp add: at_pos_def)

lemma at_pos_Suc: "at_pos l (x # r) (Suc k) = at_pos (x # l) r k"
  by (simp add: at_pos_def)

lemma search_from_None_iff:
  "search_from ic p l r = None \<longleftrightarrow> (\<forall>k\<le>length r. rmatch ic p (at_pos l r k) = [])"
proof (induction r arbitrary: l)
  case Nil
  show ?case by (simp add: search_from_Nil at_pos_0 split: list.splits)
next
  case (Cons x r)
  have "(\<forall>k\<le>length (x # r). rmatch ic p (at_pos l (x # r) k) = []) \<longleftrightarrow>
        rmatch ic p (l, x # r, Map.empty) = [] \<and> (\<forall>k\<le>length r. rmatch ic p (at_pos (x # l) r k) = [])"
    (is "?A \<longleftrightarrow> ?B \<and> ?C")
  proof
    assume a: ?A
    have ?B using a at_pos_0[of l "x # r"] by (metis le0)
    moreover have ?C
    proof (intro allI impI)
      fix k assume "k \<le> length r"
      then have "Suc k \<le> length (x # r)" by simp
      with a have "rmatch ic p (at_pos l (x # r) (Suc k)) = []" by blast
      then show "rmatch ic p (at_pos (x # l) r k) = []" by (simp add: at_pos_Suc)
    qed
    ultimately show "?B \<and> ?C" ..
  next
    assume bc: "?B \<and> ?C"
    show ?A
    proof (intro allI impI)
      fix k assume k: "k \<le> length (x # r)"
      show "rmatch ic p (at_pos l (x # r) k) = []"
      proof (cases k)
        case 0
        with bc show ?thesis by (simp add: at_pos_0)
      next
        case (Suc k')
        with k bc show ?thesis by (simp add: at_pos_Suc)
      qed
    qed
  qed
  then show ?case
    using Cons.IH[of "x # l"] by (simp add: search_from_Cons split: list.splits)
qed

lemma search_from_Some_iff:
  "search_from ic p l r = Some m \<longleftrightarrow>
     (\<exists>k\<le>length r. (\<forall>j<k. rmatch ic p (at_pos l r j) = []) \<and>
        (\<exists>st rest. rmatch ic p (at_pos l r k) = st # rest \<and> m = match_at l r k st))"
proof (induction r arbitrary: l)
  case Nil
  show ?case
    by (cases "rmatch ic p (l, [], Map.empty)")
       (auto simp: search_from_Nil at_pos_0 match_at_def)
next
  case (Cons x r)
  show ?case
  proof (cases "rmatch ic p (l, x # r, Map.empty)")
    case Nil
    have "(\<exists>k\<le>length (x # r). (\<forall>j<k. rmatch ic p (at_pos l (x # r) j) = []) \<and>
        (\<exists>st rest. rmatch ic p (at_pos l (x # r) k) = st # rest \<and> m = match_at l (x # r) k st))
      \<longleftrightarrow> (\<exists>k\<le>length r. (\<forall>j<k. rmatch ic p (at_pos (x # l) r j) = []) \<and>
        (\<exists>st rest. rmatch ic p (at_pos (x # l) r k) = st # rest \<and> m = match_at (x # l) r k st))"
      (is "?L \<longleftrightarrow> ?R")
    proof
      assume ?L
      then obtain k st rest where k: "k \<le> length (x # r)"
        "\<forall>j<k. rmatch ic p (at_pos l (x # r) j) = []"
        "rmatch ic p (at_pos l (x # r) k) = st # rest" "m = match_at l (x # r) k st"
        by blast
      from k(3) Nil have "k \<noteq> 0" by (cases k) (auto simp: at_pos_0)
      then obtain k' where k': "k = Suc k'" by (cases k) auto
      have "\<forall>j<k'. rmatch ic p (at_pos (x # l) r j) = []"
      proof (intro allI impI)
        fix j assume "j < k'"
        then have "Suc j < k" using k' by simp
        with k(2) have "rmatch ic p (at_pos l (x # r) (Suc j)) = []" by blast
        then show "rmatch ic p (at_pos (x # l) r j) = []" by (simp add: at_pos_Suc)
      qed
      moreover have "rmatch ic p (at_pos (x # l) r k') = st # rest"
        using k(3) k' by (simp add: at_pos_Suc)
      moreover have "m = match_at (x # l) r k' st"
        using k(4) k' by (simp add: match_at_def)
      moreover have "k' \<le> length r" using k(1) k' by simp
      ultimately show ?R by blast
    next
      assume ?R
      then obtain k st rest where k: "k \<le> length r"
        "\<forall>j<k. rmatch ic p (at_pos (x # l) r j) = []"
        "rmatch ic p (at_pos (x # l) r k) = st # rest" "m = match_at (x # l) r k st"
        by blast
      have "\<forall>j<Suc k. rmatch ic p (at_pos l (x # r) j) = []"
      proof (intro allI impI)
        fix j assume j: "j < Suc k"
        show "rmatch ic p (at_pos l (x # r) j) = []"
        proof (cases j)
          case 0
          with Nil show ?thesis by (simp add: at_pos_0)
        next
          case (Suc j')
          with j k(2) show ?thesis by (simp add: at_pos_Suc)
        qed
      qed
      moreover have "rmatch ic p (at_pos l (x # r) (Suc k)) = st # rest"
        using k(3) by (simp add: at_pos_Suc)
      moreover have "m = match_at l (x # r) (Suc k) st"
        using k(4) by (simp add: match_at_def)
      moreover have "Suc k \<le> length (x # r)" using k(1) by simp
      ultimately show ?L by blast
    qed
    with Nil Cons.IH[of "x # l"] show ?thesis by (simp add: search_from_Cons)
  next
    case (Cons st0 rest0)
    obtain l' r' g where st0: "st0 = (l', r', g)" by (cases st0)
    have lhs: "search_from ic p l (x # r) = Some (match_at l (x # r) 0 st0)"
      using Cons st0 by (simp add: search_from_Cons match_at_def)
    show ?thesis
    proof
      assume "search_from ic p l (x # r) = Some m"
      with lhs have "m = match_at l (x # r) 0 st0" by simp
      with Cons show "\<exists>k\<le>length (x # r). (\<forall>j<k. rmatch ic p (at_pos l (x # r) j) = []) \<and>
        (\<exists>st rest. rmatch ic p (at_pos l (x # r) k) = st # rest \<and> m = match_at l (x # r) k st)"
        by (intro exI[of _ 0]) (simp add: at_pos_0)
    next
      assume "\<exists>k\<le>length (x # r). (\<forall>j<k. rmatch ic p (at_pos l (x # r) j) = []) \<and>
        (\<exists>st rest. rmatch ic p (at_pos l (x # r) k) = st # rest \<and> m = match_at l (x # r) k st)"
      then obtain k st rest where k: 
        "\<forall>j<k. rmatch ic p (at_pos l (x # r) j) = []"
        "rmatch ic p (at_pos l (x # r) k) = st # rest" "m = match_at l (x # r) k st"
        by blast
      have "k = 0"
      proof (rule ccontr)
        assume "k \<noteq> 0"
        with k(1) have "rmatch ic p (at_pos l (x # r) 0) = []" by blast
        with Cons show False by (simp add: at_pos_0)
      qed
      with k(2,3) Cons have "m = match_at l (x # r) 0 st0" by (simp add: at_pos_0)
      with lhs show "search_from ic p l (x # r) = Some m" by simp
    qed
  qed
qed

section \<open>What a match consumes and captures\<close>

lemma many_shape:
  "st \<in> set (many ic c (l, r, g)) \<Longrightarrow>
     \<exists>t r'. r = t @ r' \<and> st = (rev t @ l, r', g) \<and> list_all (cs_ok ic c) t"
proof (induction r arbitrary: l)
  case Nil
  then show ?case by simp
next
  case (Cons x r)
  show ?case
  proof (cases "cs_ok ic c x \<and> st \<in> set (many ic c (x # l, r, g))")
    case True
    from Cons.IH[OF conjunct2[OF True]] obtain t r' where
      t: "r = t @ r'" "st = (rev t @ x # l, r', g)" "list_all (cs_ok ic c) t" by blast
    have "x # r = (x # t) @ r'" using t(1) by simp
    moreover have "st = (rev (x # t) @ l, r', g)" using t(2) by simp
    moreover have "list_all (cs_ok ic c) (x # t)" using t(3) True by simp
    ultimately show ?thesis by blast
  next
    case False
    with Cons.prems have "st = (l, x # r, g)" by (auto split: if_splits)
    then have "x # r = [] @ (x # r) \<and> st = (rev [] @ l, x # r, g) \<and> list_all (cs_ok ic c) []"
      by simp
    then show ?thesis by blast
  qed
qed

lemma rmatch_Many1_shape:
  assumes "st \<in> set (rmatch ic (Many1 c) (l, r, g))"
  shows "\<exists>t r'. t \<noteq> [] \<and> r = t @ r' \<and> st = (rev t @ l, r', g) \<and> list_all (cs_ok ic c) t"
proof (cases r)
  case Nil
  with assms show ?thesis by simp
next
  case (Cons x r0)
  with assms have x: "cs_ok ic c x" and st: "st \<in> set (many ic c (x # l, r0, g))"
    by (auto split: if_splits)
  from many_shape[OF st] obtain t r' where
    t: "r0 = t @ r'" "st = (rev t @ x # l, r', g)" "list_all (cs_ok ic c) t" by blast
  have "x # t \<noteq> []" by simp
  moreover have "r = (x # t) @ r'" using Cons t(1) by simp
  moreover have "st = (rev (x # t) @ l, r', g)" using t(2) by simp
  moreover have "list_all (cs_ok ic c) (x # t)" using x t(3) by simp
  ultimately show ?thesis by blast
qed

lemma rmatch_group_unchanged:
  "(l', r', g') \<in> set (rmatch ic p (l, r, g)) \<Longrightarrow> n \<notin> groups_of p \<Longrightarrow> g' n = g n"
proof (induction p arbitrary: l r g l' r' g')
  case Eps
  then show ?case by simp
next
  case (Chr c)
  then show ?case by (cases r) (auto split: if_splits)
next
  case (Then a b)
  from Then.prems(1) obtain l1 r1 g1 where
    1: "(l1, r1, g1) \<in> set (rmatch ic a (l, r, g))" and
    2: "(l', r', g') \<in> set (rmatch ic b (l1, r1, g1))"
    by auto
  from Then.IH(1)[OF 1] Then.IH(2)[OF 2] Then.prems(2) show ?case by simp
next
  case (Or a b)
  then show ?case by auto
next
  case (Opt a)
  then show ?case by auto
next
  case (Many1 c)
  from rmatch_Many1_shape[OF Many1.prems(1)] show ?case by auto
next
  case WordB
  then show ?case by (auto split: if_splits)
next
  case Eol
  then show ?case by (auto split: if_splits)
next
  case (NotAhead a)
  then show ?case by (auto split: list.splits)
next
  case (Group k a)
  then show ?case by auto
qed

lemma rmatch_sets_group:
  "(l', r', g') \<in> set (rmatch ic p (l, r, g)) \<Longrightarrow> sets_group n p \<Longrightarrow>
     \<exists>t. g' n = Some t \<and> digits t"
proof (induction p arbitrary: l r g l' r' g')
  case (Then a b)
  from Then.prems(1) obtain l1 r1 g1 where
    1: "(l1, r1, g1) \<in> set (rmatch ic a (l, r, g))" and
    2: "(l', r', g') \<in> set (rmatch ic b (l1, r1, g1))"
    by auto
  show ?case
  proof (cases "sets_group n b")
    case True
    from Then.IH(2)[OF 2 True] show ?thesis .
  next
    case False
    with Then.prems(2) have a: "sets_group n a" and nb: "n \<notin> groups_of b" by auto
    from Then.IH(1)[OF 1 a] obtain t where "g1 n = Some t" "digits t" by blast
    with rmatch_group_unchanged[OF 2 nb] show ?thesis by simp
  qed
next
  case (Group k a)
  from Group.prems(2) have k: "k = n" and a: "a = Many1 CDigit" by auto
  from Group.prems(1) obtain g0 where
    0: "(l', r', g0) \<in> set (rmatch ic (Many1 CDigit) (l, r, g))"
    and g': "g' = g0(n \<mapsto> rev (take (length l' - length l) l'))"
    by (auto simp: k a)
  from rmatch_Many1_shape[OF 0] obtain t where
    t: "t \<noteq> []" "l' = rev t @ l" "list_all (cs_ok ic CDigit) t" by auto
  have "rev (take (length l' - length l) l') = t" using t(2) by simp
  moreover have "digits t" using t(1,3) by (simp add: digits_def list_all_iff)
  ultimately show ?case using g' by auto
qed simp_all

section \<open>The analyzer returns\<close>

lemma re_search_groups:
  assumes "re_search ic p s = Some m" and "sets_group n p"
  shows "\<exists>t. m_groups m n = Some t \<and> digits t"
proof -
  from assms(1) obtain k st rest where
    st: "rmatch ic p (at_pos [] s k) = st # rest" and m: "m = match_at [] s k st"
    unfolding re_search_def search_from_Some_iff by blast
  obtain l' r' g' where st': "st = (l', r', g')" by (cases st)
  have "(l', r', g') \<in> set (rmatch ic p (rev (take k s) @ [], drop k s, Map.empty))"
    using st st' by (simp add: at_pos_def)
  from rmatch_sets_group[OF this assms(2)] show ?thesis
    using m st' by (simp add: match_at_def)
qed

lemma se_scan_total:
  "\<forall>p\<in>set ps. sets_group 1 p \<and> sets_group 2 p \<Longrightarrow> \<exists>v. se_scan ps s = Inr v"
proof (induction ps)
  case Nil
  then show ?case by simp
next
  case (Cons p ps)
  show ?case
  proof (cases "re_search False p s")
    case None
    with Cons show ?thesis by simp
  next
    case (Some m)
    from Cons.prems have "sets_group 1 p" "sets_group 2 p" by simp_all
    from re_search_groups[OF Some this(1)] re_search_groups[OF Some this(2)]
    obtain a b where "m_groups m 1 = Some a" "m_groups m 2 = Some b" by blast
    with Some show ?thesis by simp
  qed
qed

lemma se_patterns_groups: "\<forall>p\<in>set se_patterns. sets_group 1 p \<and> sets_group 2 p"
  by (simp add: se_patterns_def)

lemma extract_season_episode_total: "\<exists>v. extract_season_episode fn = Inr v"
  unfolding extract_season_episode_def by (rule se_scan_total[OF se_patterns_groups])

lemma analyze_filename_fields:
  "\<exists>res se. analyze_filename fn = Inr res \<and> extract_season_episode fn = Inr se
     \<and> filename res = fn
     \<and> file_type res =
         (case first_label format_patterns (lower fn) of Some l \<Rightarrow> l | None \<Rightarrow> ''Unknown'')
     \<and> quality res = first_label quality_patterns (lower fn)
     \<and> resolution res = first_label resolution_patterns (lower fn)
     \<and> codec res = first_label video_codec_patterns (lower fn)
     \<and> audio_codec res = first_label audio_codec_patterns (lower fn)
     \<and> language res = first_label language_patterns (lower fn)
     \<and> source res = first_label source_patterns (lower fn)
     \<and> format_details res =
         [(''has_subtitles'', PBool (re_test False subtitles_pattern (lower fn))),
          (''has_multiple_audio'', PBool (re_test False multiple_audio_pattern (lower fn))),
          (''is_3d'', PBool (re_test False three_d_pattern (lower fn))),
          (''is_hdr'', PBool (re_test False hdr_pattern (lower fn))),
          (''year'', opt_str (extract_year fn)),
          (''season_episode'', opt_str se)]"
proof -
  obtain se where "extract_season_episode fn = Inr se"
    using extract_season_episode_total by blast
  then show ?thesis by (simp add: analyze_filename_def Let_def)
qed

lemma first_label_in_labels: "first_label T s = Some l \<Longrightarrow> l \<in> fst ` set T"
  by (induction T) (auto split: if_splits)

lemma labels_distinct: "distinct (map fst (rules c))"
  by (cases c)
     (simp_all add: format_patterns_def quality_patterns_def resolution_patterns_def
        video_codec_patterns_def audio_codec_patterns_def language_patterns_def
        source_patterns_def)

lemma Unknown_not_format: "''Unknown'' \<notin> fst ` set format_patterns"
  by (simp add: format_patterns_def)

section \<open>The size of a file: the conversion, the loop and the format\<close>

declare bit_length.simps [simp del]

lemma bit_length_le: "a < 2 ^ k \<Longrightarrow> bit_length a \<le> k"
proof (induction k arbitrary: a)
  case 0
  then show ?case by (simp add: bit_length.simps)
next
  case (Suc k)
  show ?case
  proof (cases "a = 0")
    case True
    then show ?thesis by (simp add: bit_length.simps)
  next
    case False
    from Suc.prems have "a div 2 < 2 ^ k" by simp
    from Suc.IH[OF this] False show ?thesis by (subst bit_length.simps) simp
  qed
qed

lemma bit_length_lower: "a \<noteq> 0 \<Longrightarrow> 2 ^ (bit_length a - 1) \<le> a"
proof (induction a rule: bit_length.induct)
  case (1 n)
  show ?case
  proof (cases "n div 2 = 0")
    case True
    with 1(2) have "n = 1" by (simp add: div_eq_0_iff) 
    then show ?thesis by (simp add: bit_length.simps)
  next
    case False
    from 1(1)[OF 1(2) False] have ih: "2 ^ (bit_length (n div 2) - 1) \<le> n div 2" .
    have pos: "0 < bit_length (n div 2)" using False by (subst bit_length.simps) simp
    have "bit_length n = Suc (bit_length (n div 2))" using 1(2) by (subst bit_length.simps) simp
    then have "2 ^ (bit_length n - 1) = 2 * 2 ^ (bit_length (n div 2) - 1)"
      using pos by (cases "bit_length (n div 2)") simp_all
    also have "\<dots> \<le> 2 * (n div 2)" using ih by simp
    also have "\<dots> \<le> n" by simp
    finally show ?thesis .
  qed
qed

lemma float_overflow_gt: "(2::nat) ^ 53 \<le> float_overflow"
  unfolding float_overflow_def by (rule power_increasing) simp_all

lemma float_of_int_small:
  assumes "0 < n" and "n < 2 ^ 53"
  shows "float_of_int n = Inr (of_int n)"
proof -
  define a where "a = nat \<bar>n\<bar>"
  have a: "a < 2 ^ 53" using assms by (simp add: a_def nat_less_iff)
  have "bit_length a \<le> 53" by (rule bit_length_le[OF a])
  then have sh: "bit_length a - 53 = 0" by simp
  have nov: "\<not> float_overflow \<le> a" using a float_overflow_gt by linarith
  have sg: "sgn n * int a = n" using assms by (simp add: a_def)
  show ?thesis
    unfolding float_of_int_def Let_def a_def[symmetric] sh using nov sg by simp
qed

lemma float_of_int_large:
  assumes "2 ^ 53 \<le> n" and "float_of_int n = Inr f"
  shows "2 ^ 52 \<le> f"
proof -
  define a where "a = nat \<bar>n\<bar>"
  define sh where "sh = bit_length a - 53"
  define q where "q = a div 2 ^ sh"
  define r where "r = a mod 2 ^ sh"
  define q' where "q' = (if 2 ^ sh < 2 * r \<or> (2 * r = 2 ^ sh \<and> odd q) then q + 1 else q)"
  have npos: "0 < n"
  proof -
    have "(0::int) < 2 ^ 53" by simp
    with assms(1) show ?thesis by linarith
  qed
  have na: "n = int a" using npos by (simp add: a_def)
  have a53: "2 ^ 53 \<le> a"
  proof -
    have "int (2 ^ 53) \<le> int a" using assms(1) na by simp
    then show ?thesis by (simp only: of_nat_le_iff)
  qed
  have a0: "a \<noteq> 0" using a53 by auto
  have h: "2 ^ 52 * 2 ^ sh \<le> a"
  proof (cases "bit_length a \<le> 53")
    case True
    then have "sh = 0" by (simp add: sh_def)
    moreover have "(2::nat) ^ 52 \<le> 2 ^ 53" by simp
    ultimately show ?thesis using a53 by simp
  next
    case False
    then have "bit_length a - 1 = 52 + sh" by (simp add: sh_def)
    with bit_length_lower[OF a0] show ?thesis by (simp add: power_add)
  qed
  have "2 ^ 52 = (2 ^ 52 * 2 ^ sh) div (2::nat) ^ sh" by simp
  also have "\<dots> \<le> a div 2 ^ sh" by (rule div_le_mono[OF h])
  finally have q52: "2 ^ 52 \<le> q" by (simp add: q_def)
  have "q \<le> q'" by (simp add: q'_def)
  with q52 have "2 ^ 52 \<le> q'" by linarith
  then have "2 ^ 52 * 1 \<le> q' * 2 ^ sh"
    by (intro mult_le_mono) simp_all
  then have v: "2 ^ 52 \<le> q' * 2 ^ sh" by simp
  from assms(2) have f: "f = of_int (sgn n * int (q' * 2 ^ sh))"
    unfolding float_of_int_def Let_def a_def[symmetric] sh_def[symmetric] q_def[symmetric]
      r_def[symmetric] q'_def[symmetric]
    by (simp split: if_splits)
  have "sgn n * int (q' * 2 ^ sh) = int (q' * 2 ^ sh)" using npos by simp
  then have "f = of_nat (q' * 2 ^ sh)" using f by simp
  moreover have "(of_nat (2 ^ 52) :: rat) \<le> of_nat (q' * 2 ^ sh)"
    using v by (simp only: of_nat_le_iff)
  ultimately show ?thesis by simp
qed

lemma size_loop_float:
  assumes "j \<le> length us" and "j = length us \<or> x < 1024 ^ Suc j" and "j = 0 \<or> 1024 ^ j \<le> x"
  shows "size_loop us (PFloat x) = Inr (fmt_1f (x / 1024 ^ j) @ '' '' @ (us @ [''PB'']) ! j)"
  using assms
proof (induction us arbitrary: x j)
  case Nil
  then show ?case by (simp add: render_size_def)
next
  case (Cons u us)
  show ?case
  proof (cases j)
    case 0
    with Cons.prems(2) have "x < 1024" by simp
    with 0 show ?thesis by (simp add: render_size_def)
  next
    case (Suc j')
    with Cons.prems(3) have lo: "1024 ^ Suc j' \<le> x" by simp
    have "(1024::rat) \<le> 1024 ^ Suc j'" using power_increasing[of 1 "Suc j'" "1024::rat"] by simp
    with lo have nb: "\<not> x < 1024" by linarith
    have 1: "j' \<le> length us" using Cons.prems(1) Suc by simp
    have 2: "j' = length us \<or> x / 1024 < 1024 ^ Suc j'"
      using Cons.prems(2) Suc by (auto simp: divide_less_eq)
    have 3: "j' = 0 \<or> 1024 ^ j' \<le> x / 1024"
      using lo by (simp add: le_divide_eq mult.commute)
    have "x / 1024 / 1024 ^ j' = x / 1024 ^ Suc j'" by simp
    with Cons.IH[OF 1 2 3] nb Suc show ?thesis by simp
  qed
qed

lemma format_file_size_pos:
  assumes "0 < n" and "float_of_int n = Inr f" and "k \<le> 5"
    and "k = 0 \<or> 1024 ^ k \<le> n" and "k = 5 \<or> n < 1024 ^ Suc k"
  shows "format_file_size (Some n) =
           Inr (fmt_1f (f / 1024 ^ k) @ '' '' @ [''B'', ''KB'', ''MB'', ''GB'', ''TB'', ''PB''] ! k)"
proof (cases k)
  case 0
  with assms(5) have "n < 1024" by simp
  with assms(1,2) 0 show ?thesis
    by (simp add: format_file_size_def render_size_def)
next
  case (Suc j)
  with assms(4) have lo: "1024 ^ k \<le> n" by simp
  have "(1024::int) \<le> 1024 ^ k" using power_increasing[of 1 k "1024::int"] Suc by simp
  with lo have nb: "\<not> n < 1024" by linarith
  have flo: "1024 ^ k \<le> f" and fhi: "k = 5 \<or> f < 1024 ^ Suc k"
  proof -
    show "1024 ^ k \<le> f"
    proof (cases "n < 2 ^ 53")
      case True
      from float_of_int_small[OF assms(1) True] assms(2) have f: "f = of_int n" by simp
      have "(of_int (1024 ^ k) :: rat) \<le> of_int n" using lo by (simp only: of_int_le_iff)
      then show ?thesis using f by simp
    next
      case False
      then have "2 ^ 52 \<le> f" using float_of_int_large[OF _ assms(2)] by simp
      moreover have "(1024::rat) ^ k \<le> 1024 ^ 5" by (rule power_increasing) (simp_all add: assms(3))
      moreover have "(1024::rat) ^ 5 \<le> 2 ^ 52" by simp
      ultimately show ?thesis by linarith
    qed
    show "k = 5 \<or> f < 1024 ^ Suc k"
    proof (cases "k = 5")
      case True
      then show ?thesis ..
    next
      case False
      with assms(5) have hi: "n < 1024 ^ Suc k" by simp
      from False assms(3) have "Suc k \<le> 5" by simp
      then have "(1024::int) ^ Suc k \<le> 1024 ^ 5" by (intro power_increasing) simp_all
      moreover have "(1024::int) ^ 5 < 2 ^ 53" by simp
      ultimately have small: "n < 2 ^ 53" using hi by linarith
      from float_of_int_small[OF assms(1) small] assms(2) have f: "f = of_int n" by simp
      have "(of_int n :: rat) < of_int (1024 ^ Suc k)" using hi by (simp only: of_int_less_iff)
      then show ?thesis using f by simp
    qed
  qed
  have 1: "j \<le> length [''KB'', ''MB'', ''GB'', ''TB'']" using assms(3) Suc by simp
  have 2: "j = length [''KB'', ''MB'', ''GB'', ''TB''] \<or> f / 1024 < 1024 ^ Suc j"
    using fhi Suc by (auto simp: divide_less_eq)
  have 3: "j = 0 \<or> 1024 ^ j \<le> f / 1024"
    using flo Suc by (simp add: le_divide_eq mult.commute)
  have e: "f / 1024 / 1024 ^ j = f / 1024 ^ k" using Suc by simp
  have u: "([''KB'', ''MB'', ''GB'', ''TB''] @ [''PB'']) ! j
             = [''B'', ''KB'', ''MB'', ''GB'', ''TB'', ''PB''] ! k"
    using Suc by simp
  have "format_file_size (Some n) = size_loop [''KB'', ''MB'', ''GB'', ''TB''] (PFloat (f / 1024))"
    using assms(1,2) nb
    by (simp add: format_file_size_def size_loop.simps(2)[of "''B''"] del: size_loop.simps)
  also have "\<dots> = Inr (fmt_1f (f / 1024 / 1024 ^ j) @ '' ''
                        @ ([''KB'', ''MB'', ''GB'', ''TB''] @ [''PB'']) ! j)"
    by (rule size_loop_float[OF 1 2 3])
  finally show ?thesis unfolding e u .
qed

lemma round_half_even_near: "\<bar>of_int (round_half_even y) - y\<bar> \<le> 1 / 2"
proof -
  have "of_int \<lfloor>y\<rfloor> \<le> y" "y < of_int \<lfloor>y\<rfloor> + 1" by linarith+
  then show ?thesis unfolding round_half_even_def Let_def by (auto simp: abs_le_iff)
qed

lemma round_half_even_nonneg: "0 \<le> y \<Longrightarrow> 0 \<le> round_half_even y"
  unfolding round_half_even_def Let_def by (auto simp: zero_le_floor intro: add_nonneg_nonneg)

lemma show_nat_digit: "d < 10 \<Longrightarrow> show_nat d = [digit_char d]"
  by simp

lemma fmt_1f_shape:
  assumes "0 \<le> x"
  shows "\<exists>t. fmt_1f x = show_nat (t div 10) @ ''.'' @ [digit_char (t mod 10)]
           \<and> \<bar>of_nat t / 10 - x\<bar> \<le> 1 / 20"
proof -
  define t where "t = nat (round_half_even (10 * \<bar>x\<bar>))"
  have ax: "\<bar>x\<bar> = x" using assms by simp
  have nn: "0 \<le> round_half_even (10 * x)" using assms by (intro round_half_even_nonneg) simp
  then have "(of_nat t :: rat) = of_int (round_half_even (10 * x))"
    unfolding t_def ax by simp
  with round_half_even_near[of "10 * x"] have "\<bar>of_nat t - 10 * x\<bar> \<le> 1 / 2" by simp
  then have "of_nat t - 10 * x \<le> 1 / 2" and "- (of_nat t - 10 * x) \<le> 1 / 2"
    unfolding abs_le_iff by blast+
  then have "of_nat t / 10 - x \<le> 1 / 20" and "- (of_nat t / 10 - x) \<le> 1 / 20"
    by linarith+
  then have near: "\<bar>of_nat t / 10 - x\<bar> \<le> 1 / 20"
    unfolding abs_le_iff by blast
  have "t mod 10 < 10" by simp
  from show_nat_digit[OF this] have "fmt_1f x = show_nat (t div 10) @ ''.'' @ [digit_char (t mod 10)]"
    unfolding fmt_1f_def Let_def t_def[symmetric] using assms by simp
  with near show ?thesis by blast
qed

lemma format_file_size_1536: "format_file_size (Some 1536) = Inr ''1.5 KB''"
proof -
  have f: "float_of_int 1536 = Inr 1536"
    using float_of_int_small[of 1536] by simp
  have v: "fmt_1f (1536 / 1024 ^ 1) = ''1.5''" by code_simp
  have "format_file_size (Some 1536) =
          Inr (fmt_1f (1536 / 1024 ^ 1) @ '' ''
               @ [''B'', ''KB'', ''MB'', ''GB'', ''TB'', ''PB''] ! 1)"
    by (rule format_file_size_pos[OF _ f]) simp_all
  then show ?thesis unfolding v by simp
qed

section \<open>The report only appends\<close>

lemma if_append: "(if c then r @ x else r) = r @ (if c then x else [])"
  by simp

lemma if_append_else: "(if c then r else r @ x) = r @ (if c then [] else x)"
  by simp

lemma if_append_both: "(if c then r @ a else r @ b) = r @ (if c then a else b)"
  by simp

lemma add_detected_metadata_append:
  "add_detected_metadata a (r @ s) = r @ add_detected_metadata a s"
  by (simp only: add_detected_metadata_def Let_def if_append if_append_else if_append_both
      append_assoc)

section \<open>A pattern that matches wherever another does\<close>

lemma words_Cons_subsumes:
  "st \<in> set (rmatch ic (words (w' # ws)) (l, r, g))
     \<Longrightarrow> st \<in> set (rmatch ic (words (w # w' # ws)) (l, r, g))"
  by (auto simp: words_def)

lemma re_test_iff: "re_test ic p s \<longleftrightarrow> (\<exists>k\<le>length s. rmatch ic p (at_pos [] s k) \<noteq> [])"
proof -
  have "re_test ic p s \<longleftrightarrow> search_from ic p [] s \<noteq> None"
    by (simp add: re_test_def re_search_def split: option.splits)
  then show ?thesis by (simp add: search_from_None_iff)
qed

lemma re_test_mono:
  assumes "\<And>l r g st. st \<in> set (rmatch ic p (l, r, g)) \<Longrightarrow> st \<in> set (rmatch ic q (l, r, g))"
    and "re_test ic p s"
  shows "re_test ic q s"
proof -
  from assms(2) obtain k where k: "k \<le> length s" "rmatch ic p (at_pos [] s k) \<noteq> []"
    unfolding re_test_iff by blast
  then obtain st where "st \<in> set (rmatch ic p (at_pos [] s k))"
    by (cases "rmatch ic p (at_pos [] s k)") auto
  then have "st \<in> set (rmatch ic q (at_pos [] s k))"
    unfolding at_pos_def by (rule assms(1))
  then have "rmatch ic q (at_pos [] s k) \<noteq> []" by auto
  with k(1) show ?thesis unfolding re_test_iff by blast
qed

lemma camrip_implies_cam:
  "re_test True (snd (quality_patterns ! 1)) s \<Longrightarrow> re_test True (snd (quality_patterns ! 0)) s"
proof -
  have 0: "snd (quality_patterns ! 0) = words [''cam'', ''camrip'', ''cam-rip'']"
    and 1: "snd (quality_patterns ! 1) = words [''camrip'', ''cam-rip'']"
    by (simp_all add: quality_patterns_def)
  show "re_test True (snd (quality_patterns ! 1)) s \<Longrightarrow> re_test True (snd (quality_patterns ! 0)) s"
    unfolding 0 1 by (rule re_test_mono[OF words_Cons_subsumes])
qed

section \<open>Literals, and the patterns of the format table\<close>

lemma lower_char_dot: "lower_char c = CHR ''.'' \<longleftrightarrow> c = CHR ''.''"
  by (auto simp: lower_char_def split: option.splits if_splits)

lemma dot_in_lower: "CHR ''.'' \<in> set (lower s) \<longleftrightarrow> CHR ''.'' \<in> set s"
proof -
  have "CHR ''.'' \<in> lower_char ` set s \<longleftrightarrow> CHR ''.'' \<in> set s"
  proof
    assume "CHR ''.'' \<in> lower_char ` set s"
    then obtain c where "c \<in> set s" "lower_char c = CHR ''.''" by force
    then show "CHR ''.'' \<in> set s" by (simp add: lower_char_dot)
  next
    assume "CHR ''.'' \<in> set s"
    moreover have "lower_char CHR ''.'' = CHR ''.''" by (simp add: lower_char_dot)
    ultimately show "CHR ''.'' \<in> lower_char ` set s" by force
  qed
  then show ?thesis by (simp add: lower_def)
qed

lemma extension_Some_iff:
  "extension s = Some y \<longleftrightarrow> (\<exists>a. s = a @ CHR ''.'' # y \<and> CHR ''.'' \<notin> set y)"
proof
  assume e: "extension s = Some y"
  then have dot: "CHR ''.'' \<in> set s"
    and y: "y = rev (takeWhile (\<lambda>c. c \<noteq> CHR ''.'') (rev s))"
    by (auto simp: extension_def split: if_splits)
  let ?P = "\<lambda>c. c \<noteq> CHR ''.''"
  have "dropWhile ?P (rev s) \<noteq> []" using dot by (simp add: dropWhile_eq_Nil_conv)
  then obtain d z where dz: "dropWhile ?P (rev s) = d # z" by (cases "dropWhile ?P (rev s)") auto
  then have "\<not> ?P d" using hd_dropWhile[of ?P "rev s"] by force
  then have d: "d = CHR ''.''" by simp
  have "rev s = takeWhile ?P (rev s) @ dropWhile ?P (rev s)" by simp
  then have "rev s = rev y @ CHR ''.'' # z" using y dz d by simp
  then have "rev (rev s) = rev (rev y @ CHR ''.'' # z)" by simp
  then have "s = rev z @ CHR ''.'' # y" by simp
  moreover have "CHR ''.'' \<notin> set y" using y set_takeWhileD[of "CHR ''.''" ?P "rev s"] by auto
  ultimately show "\<exists>a. s = a @ CHR ''.'' # y \<and> CHR ''.'' \<notin> set y" by blast
next
  assume "\<exists>a. s = a @ CHR ''.'' # y \<and> CHR ''.'' \<notin> set y"
  then obtain a where a: "s = a @ CHR ''.'' # y" and ny: "CHR ''.'' \<notin> set y" by blast
  have "rev s = rev y @ CHR ''.'' # rev a" using a by simp
  moreover have "\<forall>c\<in>set (rev y). c \<noteq> CHR ''.''" using ny by auto
  ultimately have "takeWhile (\<lambda>c. c \<noteq> CHR ''.'') (rev s) = rev y"
    using takeWhile_append2[of "rev y" "\<lambda>c. c \<noteq> CHR ''.''" "CHR ''.'' # rev a"] by simp
  then show "extension s = Some y" using a by (simp add: extension_def)
qed

lemma extension_lower: "extension (lower s) = map_option lower (extension s)"
proof (cases "extension s")
  case None
  then have "CHR ''.'' \<notin> set s" by (auto simp: extension_def split: if_splits)
  then have "CHR ''.'' \<notin> set (lower s)" by (simp add: dot_in_lower)
  with None show ?thesis by (simp add: extension_def)
next
  case (Some y)
  then obtain a where "s = a @ CHR ''.'' # y" "CHR ''.'' \<notin> set y"
    unfolding extension_Some_iff by blast
  then have "lower s = lower a @ CHR ''.'' # lower y" "CHR ''.'' \<notin> set (lower y)"
    by (simp_all add: dot_in_lower) (simp add: lower_def lower_char_def)
  then have "extension (lower s) = Some (lower y)" unfolding extension_Some_iff by blast
  with Some show ?thesis by simp
qed

lemma rmatch_lit:
  "rmatch ic (lit w) (l, r, g) =
     (if length w \<le> length r \<and> lit_ok ic w (take (length w) r)
      then [(rev (take (length w) r) @ l, drop (length w) r, g)] else [])"
proof (induction w arbitrary: l r rule: lit.induct)
  case 1
  show ?case by (simp add: lit_ok_def)
next
  case (2 c)
  show ?case by (cases r) (simp_all add: lit_ok_def del: cs_ok.simps)
next
  case (3 c v va)
  show ?case
  proof (cases r)
    case Nil
    then show ?thesis by simp
  next
    case (Cons x r')
    show ?thesis by (simp add: Cons lit_ok_def 3 del: cs_ok.simps)
  qed
qed

lemma lit_ok_True: "lit_ok True w t \<longleftrightarrow> lower t = lower w"
proof -
  have "list_all2 (\<lambda>a c. lower_char c = lower_char a) w t
          \<longleftrightarrow> map lower_char t = map lower_char w"
  proof (induction w arbitrary: t)
    case Nil
    show ?case by simp
  next
    case (Cons a w)
    show ?case by (cases t) (simp_all add: Cons)
  qed
  then show ?thesis by (simp add: lit_ok_def lower_def)
qed

lemma lower_char_dot_self: "lower_char CHR ''.'' = CHR ''.''"
  by (simp add: lower_char_dot)

lemma rmatch_Eol_iff: "rmatch ic Eol (l, r, g) \<noteq> [] \<longleftrightarrow> r = [] \<or> r = [newline]"
  by simp

lemma Eol_after_Group:
  "(\<exists>st\<in>set (rmatch ic (Group n p) st0). rmatch ic Eol st \<noteq> []) \<longleftrightarrow>
   (\<exists>st\<in>set (rmatch ic p st0). rmatch ic Eol st \<noteq> [])"
proof -
  obtain l r g where st0: "st0 = (l, r, g)" by (cases st0)
  have "rmatch ic Eol (case st of (l', r', g') \<Rightarrow> (l', r', g'(n \<mapsto> rev (take (length l' - length l) l')))) \<noteq> []
      \<longleftrightarrow> rmatch ic Eol st \<noteq> []" for st
    by (cases st) simp
  then show ?thesis unfolding st0 by simp
qed

lemma rmatch_alts_lit:
  "ws \<noteq> [] \<Longrightarrow>
     set (rmatch ic (alts (map lit ws)) st) = (\<Union>w\<in>set ws. set (rmatch ic (lit w) st))"
proof (induction ws rule: list_nonempty_induct)
  case (single w)
  show ?case by simp
next
  case (cons w ws)
  then obtain w' ws' where "ws = w' # ws'" by (cases ws) auto
  with cons.IH show ?case by simp
qed

lemma lit_then_Eol:
  "(\<exists>st\<in>set (rmatch True (lit e) (l, y, g)). rmatch True Eol st \<noteq> []) \<longleftrightarrow> ext_tail e y"
proof
  assume "\<exists>st\<in>set (rmatch True (lit e) (l, y, g)). rmatch True Eol st \<noteq> []"
  then have 1: "length e \<le> length y" and 2: "lower (take (length e) y) = lower e"
    and 3: "drop (length e) y = [] \<or> drop (length e) y = [newline]"
    by (auto simp: rmatch_lit lit_ok_True split: if_splits)
  have "y = take (length e) y @ drop (length e) y" by simp
  with 2 3 show "ext_tail e y" unfolding ext_tail_def by blast
next
  assume "ext_tail e y"
  then obtain t rest where y: "y = t @ rest" and t: "lower t = lower e"
    and rest: "rest = [] \<or> rest = [newline]"
    unfolding ext_tail_def by blast
  from t have len: "length t = length e" using length_map[of lower_char] by (metis lower_def)
  then have "take (length e) y = t" "drop (length e) y = rest" "length e \<le> length y"
    using y by simp_all
  with t rest show "\<exists>st\<in>set (rmatch True (lit e) (l, y, g)). rmatch True Eol st \<noteq> []"
    by (auto simp: rmatch_lit lit_ok_True)
qed

lemma rmatch_ext: "rmatch True (ext e) (l, r, g) \<noteq> [] \<longleftrightarrow> ext_here e r"
proof (cases r)
  case Nil
  then show ?thesis by (simp add: ext_def ext_here_def)
next
  case (Cons c y)
  show ?thesis
  proof (cases "c = CHR ''.''")
    case True
    have "rmatch True (ext e) (l, r, g) \<noteq> [] \<longleftrightarrow>
        (\<exists>st\<in>set (rmatch True (lit e) (c # l, y, g)). rmatch True Eol st \<noteq> [])"
      using Cons True by (simp add: ext_def lower_char_dot_self)
    also have "\<dots> \<longleftrightarrow> ext_tail e y" by (rule lit_then_Eol)
    finally show ?thesis using Cons True by (simp add: ext_here_def)
  next
    case False
    then have "lower_char c \<noteq> lower_char CHR ''.''"
      by (simp add: lower_char_dot lower_char_dot_self)
    with Cons False show ?thesis by (simp add: ext_def ext_here_def)
  qed
qed

lemma rmatch_exts:
  assumes "es \<noteq> []"
  shows "rmatch True (exts es) (l, r, g) \<noteq> [] \<longleftrightarrow> (\<exists>e\<in>set es. ext_here e r)"
proof (cases r)
  case Nil
  then show ?thesis by (simp add: exts_def ext_here_def)
next
  case (Cons c y)
  show ?thesis
  proof (cases "c = CHR ''.''")
    case True
    have "rmatch True (exts es) (l, r, g) \<noteq> [] \<longleftrightarrow>
        (\<exists>st\<in>set (rmatch True (Group 1 (alts (map lit es))) (c # l, y, g)).
           rmatch True Eol st \<noteq> [])"
      using Cons True by (simp add: exts_def lower_char_dot_self)
    also have "\<dots> \<longleftrightarrow>
        (\<exists>st\<in>set (rmatch True (alts (map lit es)) (c # l, y, g)). rmatch True Eol st \<noteq> [])"
      by (rule Eol_after_Group)
    also have "\<dots> \<longleftrightarrow>
        (\<exists>e\<in>set es. \<exists>st\<in>set (rmatch True (lit e) (c # l, y, g)). rmatch True Eol st \<noteq> [])"
      unfolding rmatch_alts_lit[OF assms] by blast
    also have "\<dots> \<longleftrightarrow> (\<exists>e\<in>set es. ext_tail e y)" unfolding lit_then_Eol ..
    finally show ?thesis using Cons True by (simp add: ext_here_def)
  next
    case False
    then have "lower_char c \<noteq> lower_char CHR ''.''"
      by (simp add: lower_char_dot lower_char_dot_self)
    with Cons False show ?thesis by (simp add: exts_def ext_here_def)
  qed
qed

lemma ext_tail_no_dot:
  assumes "ext_tail e y" and "CHR ''.'' \<notin> set e"
  shows "CHR ''.'' \<notin> set y"
proof -
  from assms(1) obtain t rest where y: "y = t @ rest" and t: "lower t = lower e"
    and rest: "rest = [] \<or> rest = [newline]"
    unfolding ext_tail_def by blast
  have "CHR ''.'' \<in> set t \<longleftrightarrow> CHR ''.'' \<in> set e"
    using dot_in_lower[of t] dot_in_lower[of e] t by simp
  with assms(2) have "CHR ''.'' \<notin> set t" by simp
  moreover have "CHR ''.'' \<notin> set rest" using rest by (auto simp: newline_def)
  ultimately show ?thesis using y by simp
qed

lemma ext_here_somewhere:
  assumes "\<And>e. e \<in> E \<Longrightarrow> CHR ''.'' \<notin> set e"
  shows "(\<exists>k\<le>length s. \<exists>e\<in>E. ext_here e (drop k s))
           \<longleftrightarrow> (\<exists>y. extension s = Some y \<and> (\<exists>e\<in>E. ext_tail e y))"
proof
  assume "\<exists>k\<le>length s. \<exists>e\<in>E. ext_here e (drop k s)"
  then obtain k e y where k: "k \<le> length s" and e: "e \<in> E"
    and d: "drop k s = CHR ''.'' # y" and y: "ext_tail e y"
    unfolding ext_here_def by blast
  have "s = take k s @ CHR ''.'' # y" using d by (metis append_take_drop_id)
  moreover have "CHR ''.'' \<notin> set y" using ext_tail_no_dot[OF y assms[OF e]] .
  ultimately have "extension s = Some y" unfolding extension_Some_iff by blast
  with e y show "\<exists>y. extension s = Some y \<and> (\<exists>e\<in>E. ext_tail e y)" by blast
next
  assume "\<exists>y. extension s = Some y \<and> (\<exists>e\<in>E. ext_tail e y)"
  then obtain y e where x: "extension s = Some y" and e: "e \<in> E" and y: "ext_tail e y" by blast
  from x obtain a where a: "s = a @ CHR ''.'' # y" unfolding extension_Some_iff by blast
  then have "drop (length a) s = CHR ''.'' # y" "length a \<le> length s" by simp_all
  with e y show "\<exists>k\<le>length s. \<exists>e\<in>E. ext_here e (drop k s)"
    unfolding ext_here_def by blast
qed

lemma test_by_ext:
  assumes "CHR ''.'' \<notin> set e"
  shows "re_test True (ext e) s \<longleftrightarrow> (\<exists>y. extension s = Some y \<and> ext_tail e y)"
proof -
  have "re_test True (ext e) s \<longleftrightarrow> (\<exists>k\<le>length s. \<exists>e'\<in>{e}. ext_here e' (drop k s))"
    by (simp add: re_test_iff at_pos_def rmatch_ext)
  also have "\<dots> \<longleftrightarrow> (\<exists>y. extension s = Some y \<and> (\<exists>e'\<in>{e}. ext_tail e' y))"
    by (rule ext_here_somewhere) (use assms in simp)
  finally show ?thesis by simp
qed

lemma test_by_exts:
  assumes "es \<noteq> []" and "\<forall>e\<in>set es. CHR ''.'' \<notin> set e"
  shows "re_test True (exts es) s \<longleftrightarrow> (\<exists>y. extension s = Some y \<and> (\<exists>e\<in>set es. ext_tail e y))"
proof -
  have "re_test True (exts es) s \<longleftrightarrow> (\<exists>k\<le>length s. \<exists>e\<in>set es. ext_here e (drop k s))"
    by (simp add: re_test_iff at_pos_def rmatch_exts[OF assms(1)])
  also have "\<dots> \<longleftrightarrow> (\<exists>y. extension s = Some y \<and> (\<exists>e\<in>set es. ext_tail e y))"
    by (rule ext_here_somewhere) (use assms(2) in blast)
  finally show ?thesis .
qed

lemma format_test_by_extension:
  assumes "(l, p) \<in> set format_patterns" and "extension s = extension s'"
  shows "re_test True p s = re_test True p s'"
proof -
  have "\<forall>(l, p)\<in>set format_patterns. re_test True p s = re_test True p s'"
    unfolding format_patterns_def by (simp add: test_by_ext test_by_exts assms(2))
  with assms(1) show ?thesis by blast
qed

lemma first_label_cong:
  "(\<And>l p. (l, p) \<in> set T \<Longrightarrow> re_test True p s = re_test True p s')
     \<Longrightarrow> first_label T s = first_label T s'"
proof (induction T)
  case Nil
  show ?case by simp
next
  case (Cons a T)
  obtain l p where a: "a = (l, p)" by (cases a)
  have "re_test True p s = re_test True p s'" using Cons.prems[of l p] a by simp
  moreover have "first_label T s = first_label T s'"
  proof (rule Cons.IH)
    fix l' p' assume "(l', p') \<in> set T"
    then show "re_test True p' s = re_test True p' s'" using Cons.prems[of l' p'] by simp
  qed
  ultimately show ?case by (simp add: a)
qed

section \<open>The search and the captures over any character database\<close>

text \<open>
  The facts of the first-label loop, of the search and of the captured groups hold whatever
  the character database is; the proofs are those of the ASCII matcher.
\<close>

declare search_from_u.simps [simp del]

lemma first_label_Some_iff_u:
  "first_label_u cc T s = Some l \<longleftrightarrow>
     (\<exists>i<length T. fst (T ! i) = l \<and> re_test_u cc True (snd (T ! i)) s
        \<and> (\<forall>j<i. \<not> re_test_u cc True (snd (T ! j)) s))"
proof (induction T)
  case Nil
  then show ?case by simp
next
  case (Cons a T)
  obtain name p where a: "a = (name, p)" by (cases a)
  show ?case
  proof (cases "re_test_u cc True p s")
    case True
    show ?thesis
    proof
      assume "first_label_u cc (a # T) s = Some l"
      with True a have "name = l" by simp
      with True a show "\<exists>i<length (a # T). fst ((a # T) ! i) = l \<and> re_test_u cc True (snd ((a # T) ! i)) s
        \<and> (\<forall>j<i. \<not> re_test_u cc True (snd ((a # T) ! j)) s)"
        by (intro exI[of _ 0]) simp
    next
      assume "\<exists>i<length (a # T). fst ((a # T) ! i) = l \<and> re_test_u cc True (snd ((a # T) ! i)) s
        \<and> (\<forall>j<i. \<not> re_test_u cc True (snd ((a # T) ! j)) s)"
      then obtain i where i: "fst ((a # T) ! i) = l" "\<forall>j<i. \<not> re_test_u cc True (snd ((a # T) ! j)) s"
        by blast
      have "i = 0"
      proof (rule ccontr)
        assume "i \<noteq> 0"
        then have "\<not> re_test_u cc True (snd ((a # T) ! 0)) s" using i(2) by blast
        with True a show False by simp
      qed
      with i(1) True a show "first_label_u cc (a # T) s = Some l" by simp
    qed
  next
    case False
    have "(\<exists>i<length (a # T). fst ((a # T) ! i) = l \<and> re_test_u cc True (snd ((a # T) ! i)) s
        \<and> (\<forall>j<i. \<not> re_test_u cc True (snd ((a # T) ! j)) s)) \<longleftrightarrow>
      (\<exists>i<length T. fst (T ! i) = l \<and> re_test_u cc True (snd (T ! i)) s
        \<and> (\<forall>j<i. \<not> re_test_u cc True (snd (T ! j)) s))" (is "?L \<longleftrightarrow> ?R")
    proof
      assume ?L
      then obtain i where i: "i < length (a # T)" "fst ((a # T) ! i) = l"
        "re_test_u cc True (snd ((a # T) ! i)) s" "\<forall>j<i. \<not> re_test_u cc True (snd ((a # T) ! j)) s"
        by blast
      from i(3) False a have "i \<noteq> 0" by (cases i) auto
      then obtain k where k: "i = Suc k" by (cases i) auto
      have "\<forall>j<k. \<not> re_test_u cc True (snd (T ! j)) s"
        using i(4) k by (metis Suc_less_eq nth_Cons_Suc)
      with i(1,2,3) k show ?R by auto
    next
      assume ?R
      then obtain i where i: "i < length T" "fst (T ! i) = l"
        "re_test_u cc True (snd (T ! i)) s" "\<forall>j<i. \<not> re_test_u cc True (snd (T ! j)) s"
        by blast
      have "\<forall>j<Suc i. \<not> re_test_u cc True (snd ((a # T) ! j)) s"
        using i(4) False a by (auto simp: less_Suc_eq_0_disj)
      with i(1,2,3) show ?L by (intro exI[of _ "Suc i"]) auto
    qed
    with False Cons.IH show ?thesis by (simp add: a)
  qed
qed

lemma search_from_Nil_u:
  "search_from_u cc ic p l [] =
     (case rmatch_u cc ic p (l, [], Map.empty) of
        (l', r', g) # _ \<Rightarrow>
          Some \<lparr>start_u = length l, text_u = rev (take (length l' - length l) l'), groups_u = g\<rparr>
      | [] \<Rightarrow> None)"
  by (subst search_from_u.simps) (simp split: list.splits)

lemma search_from_Cons_u:
  "search_from_u cc ic p l (x # r) =
     (case rmatch_u cc ic p (l, x # r, Map.empty) of
        (l', r', g) # _ \<Rightarrow>
          Some \<lparr>start_u = length l, text_u = rev (take (length l' - length l) l'), groups_u = g\<rparr>
      | [] \<Rightarrow> search_from_u cc ic p (x # l) r)"
  by (subst search_from_u.simps) (simp split: list.splits)

lemma at_pos_0_u: "at_pos_u l r 0 = (l, r, Map.empty)"
  by (simp add: at_pos_u_def)

lemma at_pos_Suc_u: "at_pos_u l (x # r) (Suc k) = at_pos_u (x # l) r k"
  by (simp add: at_pos_u_def)


lemma search_from_Some_iff_u:
  "search_from_u cc ic p l r = Some m \<longleftrightarrow>
     (\<exists>k\<le>length r. (\<forall>j<k. rmatch_u cc ic p (at_pos_u l r j) = []) \<and>
        (\<exists>st rest. rmatch_u cc ic p (at_pos_u l r k) = st # rest \<and> m = match_at_u l r k st))"
proof (induction r arbitrary: l)
  case Nil
  show ?case
    by (cases "rmatch_u cc ic p (l, [], Map.empty)")
       (auto simp: search_from_Nil_u at_pos_0_u match_at_u_def)
next
  case (Cons x r)
  show ?case
  proof (cases "rmatch_u cc ic p (l, x # r, Map.empty)")
    case Nil
    have "(\<exists>k\<le>length (x # r). (\<forall>j<k. rmatch_u cc ic p (at_pos_u l (x # r) j) = []) \<and>
        (\<exists>st rest. rmatch_u cc ic p (at_pos_u l (x # r) k) = st # rest \<and> m = match_at_u l (x # r) k st))
      \<longleftrightarrow> (\<exists>k\<le>length r. (\<forall>j<k. rmatch_u cc ic p (at_pos_u (x # l) r j) = []) \<and>
        (\<exists>st rest. rmatch_u cc ic p (at_pos_u (x # l) r k) = st # rest \<and> m = match_at_u (x # l) r k st))"
      (is "?L \<longleftrightarrow> ?R")
    proof
      assume ?L
      then obtain k st rest where k: "k \<le> length (x # r)"
        "\<forall>j<k. rmatch_u cc ic p (at_pos_u l (x # r) j) = []"
        "rmatch_u cc ic p (at_pos_u l (x # r) k) = st # rest" "m = match_at_u l (x # r) k st"
        by blast
      from k(3) Nil have "k \<noteq> 0" by (cases k) (auto simp: at_pos_0_u)
      then obtain k' where k': "k = Suc k'" by (cases k) auto
      have "\<forall>j<k'. rmatch_u cc ic p (at_pos_u (x # l) r j) = []"
      proof (intro allI impI)
        fix j assume "j < k'"
        then have "Suc j < k" using k' by simp
        with k(2) have "rmatch_u cc ic p (at_pos_u l (x # r) (Suc j)) = []" by blast
        then show "rmatch_u cc ic p (at_pos_u (x # l) r j) = []" by (simp add: at_pos_Suc_u)
      qed
      moreover have "rmatch_u cc ic p (at_pos_u (x # l) r k') = st # rest"
        using k(3) k' by (simp add: at_pos_Suc_u)
      moreover have "m = match_at_u (x # l) r k' st"
        using k(4) k' by (simp add: match_at_u_def)
      moreover have "k' \<le> length r" using k(1) k' by simp
      ultimately show ?R by blast
    next
      assume ?R
      then obtain k st rest where k: "k \<le> length r"
        "\<forall>j<k. rmatch_u cc ic p (at_pos_u (x # l) r j) = []"
        "rmatch_u cc ic p (at_pos_u (x # l) r k) = st # rest" "m = match_at_u (x # l) r k st"
        by blast
      have "\<forall>j<Suc k. rmatch_u cc ic p (at_pos_u l (x # r) j) = []"
      proof (intro allI impI)
        fix j assume j: "j < Suc k"
        show "rmatch_u cc ic p (at_pos_u l (x # r) j) = []"
        proof (cases j)
          case 0
          with Nil show ?thesis by (simp add: at_pos_0_u)
        next
          case (Suc j')
          with j k(2) show ?thesis by (simp add: at_pos_Suc_u)
        qed
      qed
      moreover have "rmatch_u cc ic p (at_pos_u l (x # r) (Suc k)) = st # rest"
        using k(3) by (simp add: at_pos_Suc_u)
      moreover have "m = match_at_u l (x # r) (Suc k) st"
        using k(4) by (simp add: match_at_u_def)
      moreover have "Suc k \<le> length (x # r)" using k(1) by simp
      ultimately show ?L by blast
    qed
    with Nil Cons.IH[of "x # l"] show ?thesis by (simp add: search_from_Cons_u)
  next
    case (Cons st0 rest0)
    obtain l' r' g where st0: "st0 = (l', r', g)" by (cases st0)
    have lhs: "search_from_u cc ic p l (x # r) = Some (match_at_u l (x # r) 0 st0)"
      using Cons st0 by (simp add: search_from_Cons_u match_at_u_def)
    show ?thesis
    proof
      assume "search_from_u cc ic p l (x # r) = Some m"
      with lhs have "m = match_at_u l (x # r) 0 st0" by simp
      with Cons show "\<exists>k\<le>length (x # r). (\<forall>j<k. rmatch_u cc ic p (at_pos_u l (x # r) j) = []) \<and>
        (\<exists>st rest. rmatch_u cc ic p (at_pos_u l (x # r) k) = st # rest \<and> m = match_at_u l (x # r) k st)"
        by (intro exI[of _ 0]) (simp add: at_pos_0_u)
    next
      assume "\<exists>k\<le>length (x # r). (\<forall>j<k. rmatch_u cc ic p (at_pos_u l (x # r) j) = []) \<and>
        (\<exists>st rest. rmatch_u cc ic p (at_pos_u l (x # r) k) = st # rest \<and> m = match_at_u l (x # r) k st)"
      then obtain k st rest where k: 
        "\<forall>j<k. rmatch_u cc ic p (at_pos_u l (x # r) j) = []"
        "rmatch_u cc ic p (at_pos_u l (x # r) k) = st # rest" "m = match_at_u l (x # r) k st"
        by blast
      have "k = 0"
      proof (rule ccontr)
        assume "k \<noteq> 0"
        with k(1) have "rmatch_u cc ic p (at_pos_u l (x # r) 0) = []" by blast
        with Cons show False by (simp add: at_pos_0_u)
      qed
      with k(2,3) Cons have "m = match_at_u l (x # r) 0 st0" by (simp add: at_pos_0_u)
      with lhs show "search_from_u cc ic p l (x # r) = Some m" by simp
    qed
  qed
qed

lemma many_shape_u:
  "st \<in> set (many_u cc ic c (l, r, g)) \<Longrightarrow>
     \<exists>t r'. r = t @ r' \<and> st = (rev t @ l, r', g) \<and> list_all (cs_ok_u cc ic c) t"
proof (induction r arbitrary: l)
  case Nil
  then show ?case by simp
next
  case (Cons x r)
  show ?case
  proof (cases "cs_ok_u cc ic c x \<and> st \<in> set (many_u cc ic c (x # l, r, g))")
    case True
    from Cons.IH[OF conjunct2[OF True]] obtain t r' where
      t: "r = t @ r'" "st = (rev t @ x # l, r', g)" "list_all (cs_ok_u cc ic c) t" by blast
    have "x # r = (x # t) @ r'" using t(1) by simp
    moreover have "st = (rev (x # t) @ l, r', g)" using t(2) by simp
    moreover have "list_all (cs_ok_u cc ic c) (x # t)" using t(3) True by simp
    ultimately show ?thesis by blast
  next
    case False
    with Cons.prems have "st = (l, x # r, g)" by (auto split: if_splits)
    then have "x # r = [] @ (x # r) \<and> st = (rev [] @ l, x # r, g) \<and> list_all (cs_ok_u cc ic c) []"
      by simp
    then show ?thesis by blast
  qed
qed

lemma rmatch_Many1_shape_u:
  assumes "st \<in> set (rmatch_u cc ic (Many1 c) (l, r, g))"
  shows "\<exists>t r'. t \<noteq> [] \<and> r = t @ r' \<and> st = (rev t @ l, r', g) \<and> list_all (cs_ok_u cc ic c) t"
proof (cases r)
  case Nil
  with assms show ?thesis by simp
next
  case (Cons x r0)
  with assms have x: "cs_ok_u cc ic c x" and st: "st \<in> set (many_u cc ic c (x # l, r0, g))"
    by (auto split: if_splits)
  from many_shape_u[OF st] obtain t r' where
    t: "r0 = t @ r'" "st = (rev t @ x # l, r', g)" "list_all (cs_ok_u cc ic c) t" by blast
  have "x # t \<noteq> []" by simp
  moreover have "r = (x # t) @ r'" using Cons t(1) by simp
  moreover have "st = (rev (x # t) @ l, r', g)" using t(2) by simp
  moreover have "list_all (cs_ok_u cc ic c) (x # t)" using x t(3) by simp
  ultimately show ?thesis by blast
qed

lemma rmatch_group_unchanged_u:
  "(l', r', g') \<in> set (rmatch_u cc ic p (l, r, g)) \<Longrightarrow> n \<notin> groups_of p \<Longrightarrow> g' n = g n"
proof (induction p arbitrary: l r g l' r' g')
  case Eps
  then show ?case by simp
next
  case (Chr c)
  then show ?case by (cases r) (auto split: if_splits)
next
  case (Then a b)
  from Then.prems(1) obtain l1 r1 g1 where
    1: "(l1, r1, g1) \<in> set (rmatch_u cc ic a (l, r, g))" and
    2: "(l', r', g') \<in> set (rmatch_u cc ic b (l1, r1, g1))"
    by auto
  from Then.IH(1)[OF 1] Then.IH(2)[OF 2] Then.prems(2) show ?case by simp
next
  case (Or a b)
  then show ?case by auto
next
  case (Opt a)
  then show ?case by auto
next
  case (Many1 c)
  from rmatch_Many1_shape_u[OF Many1.prems(1)] show ?case by auto
next
  case WordB
  then show ?case by (auto split: if_splits)
next
  case Eol
  then show ?case by (auto split: if_splits)
next
  case (NotAhead a)
  then show ?case by (auto split: list.splits)
next
  case (Group k a)
  then show ?case by auto
qed

lemma rmatch_sets_group_u:
  "(l', r', g') \<in> set (rmatch_u cc ic p (l, r, g)) \<Longrightarrow> sets_group n p \<Longrightarrow>
     \<exists>t. g' n = Some t \<and> digits_u cc t"
proof (induction p arbitrary: l r g l' r' g')
  case (Then a b)
  from Then.prems(1) obtain l1 r1 g1 where
    1: "(l1, r1, g1) \<in> set (rmatch_u cc ic a (l, r, g))" and
    2: "(l', r', g') \<in> set (rmatch_u cc ic b (l1, r1, g1))"
    by auto
  show ?case
  proof (cases "sets_group n b")
    case True
    from Then.IH(2)[OF 2 True] show ?thesis .
  next
    case False
    with Then.prems(2) have a: "sets_group n a" and nb: "n \<notin> groups_of b" by auto
    from Then.IH(1)[OF 1 a] obtain t where "g1 n = Some t" "digits_u cc t" by blast
    with rmatch_group_unchanged_u[OF 2 nb] show ?thesis by simp
  qed
next
  case (Group k a)
  from Group.prems(2) have k: "k = n" and a: "a = Many1 CDigit" by auto
  from Group.prems(1) obtain g0 where
    0: "(l', r', g0) \<in> set (rmatch_u cc ic (Many1 CDigit) (l, r, g))"
    and g': "g' = g0(n \<mapsto> rev (take (length l' - length l) l'))"
    by (auto simp: k a)
  from rmatch_Many1_shape_u[OF 0] obtain t where
    t: "t \<noteq> []" "l' = rev t @ l" "list_all (cs_ok_u cc ic CDigit) t" by auto
  have "rev (take (length l' - length l) l') = t" using t(2) by simp
  moreover have "digits_u cc t" using t(1,3) by (simp add: digits_u_def list_all_iff)
  ultimately show ?case using g' by auto
qed simp_all

section \<open>The analyzer returns over any character database\<close>

lemma re_search_groups_u:
  assumes "re_search_u cc ic p s = Some m" and "sets_group n p"
  shows "\<exists>t. groups_u m n = Some t \<and> digits_u cc t"
proof -
  from assms(1) obtain k st rest where
    st: "rmatch_u cc ic p (at_pos_u [] s k) = st # rest" and m: "m = match_at_u [] s k st"
    unfolding re_search_u_def search_from_Some_iff_u by blast
  obtain l' r' g' where st': "st = (l', r', g')" by (cases st)
  have "(l', r', g') \<in> set (rmatch_u cc ic p (rev (take k s) @ [], drop k s, Map.empty))"
    using st st' by (simp add: at_pos_u_def)
  from rmatch_sets_group_u[OF this assms(2)] show ?thesis
    using m st' by (simp add: match_at_u_def)
qed

lemma se_scan_total_u:
  "\<forall>p\<in>set ps. sets_group 1 p \<and> sets_group 2 p \<Longrightarrow> \<exists>v. se_scan_u cc ps s = Inr v"
proof (induction ps)
  case Nil
  then show ?case by simp
next
  case (Cons p ps)
  show ?case
  proof (cases "re_search_u cc False p s")
    case None
    with Cons show ?thesis by simp
  next
    case (Some m)
    from Cons.prems have "sets_group 1 p" "sets_group 2 p" by simp_all
    from re_search_groups_u[OF Some this(1)] re_search_groups_u[OF Some this(2)]
    obtain a b where "groups_u m 1 = Some a" "groups_u m 2 = Some b" by blast
    with Some show ?thesis by simp
  qed
qed

lemma extract_season_episode_total_u: "\<exists>v. extract_season_episode_u cc fn = Inr v"
  unfolding extract_season_episode_u_def by (rule se_scan_total_u[OF se_patterns_groups])

lemma analyze_filename_fields_u:
  "\<exists>res se. analyze_filename_u cc fn = Inr res \<and> extract_season_episode_u cc fn = Inr se
     \<and> filename_u res = fn
     \<and> file_type_u res =
         (case first_label_u cc format_patterns (lower_u cc fn) of Some l \<Rightarrow> l | None \<Rightarrow> ''Unknown'')
     \<and> quality_u res = first_label_u cc quality_patterns (lower_u cc fn)
     \<and> resolution_u res = first_label_u cc resolution_patterns (lower_u cc fn)
     \<and> codec_u res = first_label_u cc video_codec_patterns (lower_u cc fn)
     \<and> audio_codec_u res = first_label_u cc audio_codec_patterns (lower_u cc fn)
     \<and> language_u res = first_label_u cc language_patterns (lower_u cc fn)
     \<and> source_u res = first_label_u cc source_patterns (lower_u cc fn)
     \<and> format_details_u res =
         [(''has_subtitles'', UBool (re_test_u cc False subtitles_pattern (lower_u cc fn))),
          (''has_multiple_audio'', UBool (re_test_u cc False multiple_audio_pattern (lower_u cc fn))),
          (''is_3d'', UBool (re_test_u cc False three_d_pattern (lower_u cc fn))),
          (''is_hdr'', UBool (re_test_u cc False hdr_pattern (lower_u cc fn))),
          (''year'', opt_str_u (extract_year_u cc fn)),
          (''season_episode'', opt_str_u se)]"
proof -
  obtain se where "extract_season_episode_u cc fn = Inr se"
    using extract_season_episode_total_u by blast
  then show ?thesis by (simp add: analyze_filename_u_def Let_def)
qed

lemma first_label_in_labels_u: "first_label_u cc T s = Some l \<Longrightarrow> l \<in> fst ` set T"
  by (induction T) (auto split: if_splits)

lemma selected_first_label_u:
  assumes "analyze_filename_u cc fn = Inr res"
  shows "selected_u c res = first_label_u cc (rules c) (lower_u cc fn)"
proof -
  from analyze_filename_fields_u[of cc fn] assms have f:
    "file_type_u res =
         (case first_label_u cc format_patterns (lower_u cc fn) of Some l \<Rightarrow> l | None \<Rightarrow> ''Unknown'')"
    "quality_u res = first_label_u cc quality_patterns (lower_u cc fn)"
    "resolution_u res = first_label_u cc resolution_patterns (lower_u cc fn)"
    "codec_u res = first_label_u cc video_codec_patterns (lower_u cc fn)"
    "audio_codec_u res = first_label_u cc audio_codec_patterns (lower_u cc fn)"
    "language_u res = first_label_u cc language_patterns (lower_u cc fn)"
    "source_u res = first_label_u cc source_patterns (lower_u cc fn)"
    by auto
  show ?thesis
  proof (cases c)
    case Format
    show ?thesis
    proof (cases "first_label_u cc format_patterns (lower_u cc fn)")
      case None
      with f(1) Format show ?thesis by simp
    next
      case (Some l)
      with first_label_in_labels_u[OF Some] Unknown_not_format have "l \<noteq> ''Unknown''" by blast
      with f(1) Format Some show ?thesis by simp
    qed
  qed (simp_all add: f)
qed

section \<open>The pattern of the year\<close>












section \<open>The ASCII database gives the analyzer of the first sections\<close>

lemma ascii_sel:
  "asc ascii c = c" "lower_u ascii s = lower s" "word_u ascii c = is_word c"
  "digit_u ascii c = is_digit c" "ieq_u ascii a c \<longleftrightarrow> lower_char c = lower_char a"
  by (simp_all add: ascii_def)

lemma cs_ok_ascii: "cs_ok_u ascii ic c x = cs_ok ic c x"
  by (cases c) (simp_all add: ascii_sel)

lemma word_before_ascii: "word_before_u ascii l = word_before l"
  by (simp add: word_before_u_def word_before_def ascii_sel split: list.splits)

lemma many_ascii: "many_u ascii ic c st = many ic c st"
  by (induction ic c st rule: many.induct) (simp_all add: cs_ok_ascii)

lemma rmatch_ascii: "rmatch_u ascii ic p st = rmatch ic p st"
proof (induction ic p st rule: rmatch.induct)
  case (3 ic a b st)
  then show ?case by (simp cong: map_cong)
next
  case (8 ic l r g)
  then show ?case by (simp add: ascii_sel)
qed (simp_all add: cs_ok_ascii many_ascii word_before_ascii split: list.splits)

lemma search_from_ascii:
  "search_from_u ascii ic p l r =
     map_option (\<lambda>m. \<lparr>start_u = m_start m, text_u = m_text m, groups_u = m_groups m\<rparr>)
       (search_from ic p l r)"
proof (induction r arbitrary: l)
  case Nil
  show ?case
    by (simp add: search_from_Nil search_from_Nil_u rmatch_ascii split: list.splits)
next
  case (Cons x r)
  show ?case
    by (simp add: search_from_Cons search_from_Cons_u rmatch_ascii Cons.IH split: list.splits)
qed

lemma re_search_ascii:
  "re_search_u ascii ic p s =
     map_option (\<lambda>m. \<lparr>start_u = m_start m, text_u = m_text m, groups_u = m_groups m\<rparr>)
       (re_search ic p s)"
  by (simp add: re_search_u_def re_search_def search_from_ascii)

lemma re_test_ascii: "re_test_u ascii ic p s = re_test ic p s"
  by (simp add: re_test_u_def re_test_def re_search_ascii split: option.splits)

lemma first_label_ascii: "first_label_u ascii T s = first_label T s"
  by (induction T) (auto simp: re_test_ascii)

lemma extract_year_ascii: "extract_year_u ascii fn = extract_year fn"
  by (simp add: extract_year_u_def extract_year_def re_search_ascii split: option.splits)

lemma zfill_ascii: "zfill_u ascii w s = zfill w s"
  by (simp add: zfill_u_def zfill_def ascii_sel split: list.splits)

lemma se_scan_ascii: "se_scan_u ascii ps s = se_scan ps s"
proof (induction ps)
  case Nil
  show ?case by simp
next
  case (Cons p ps)
  show ?case
  proof (cases "re_search False p s")
    case None
    with Cons show ?thesis by (simp add: re_search_ascii)
  next
    case (Some m)
    then show ?thesis
      by (simp add: re_search_ascii zfill_ascii ascii_sel split: option.splits)
  qed
qed

lemma extract_season_episode_ascii: "extract_season_episode_u ascii fn = extract_season_episode fn"
  by (simp add: extract_season_episode_u_def extract_season_episode_def se_scan_ascii ascii_sel)

lemma analyze_filename_ascii:
  "\<exists>res res'. analyze_filename fn = Inr res \<and> analyze_filename_u ascii fn = Inr res'
     \<and> filename_u res' = filename res \<and> file_type_u res' = file_type res
     \<and> quality_u res' = quality res \<and> resolution_u res' = resolution res
     \<and> codec_u res' = codec res \<and> audio_codec_u res' = audio_codec res
     \<and> language_u res' = language res \<and> source_u res' = source res
     \<and> map fst (format_details_u res') = map fst (format_details res)"
proof -
  have l: "lower_u ascii fn = lower fn" by (simp add: ascii_sel)
  obtain res where res: "analyze_filename fn = Inr res" and
    f: "filename res = fn"
      "file_type res =
         (case first_label format_patterns (lower fn) of Some l \<Rightarrow> l | None \<Rightarrow> ''Unknown'')"
      "quality res = first_label quality_patterns (lower fn)"
      "resolution res = first_label resolution_patterns (lower fn)"
      "codec res = first_label video_codec_patterns (lower fn)"
      "audio_codec res = first_label audio_codec_patterns (lower fn)"
      "language res = first_label language_patterns (lower fn)"
      "source res = first_label source_patterns (lower fn)"
      and d: "map fst (format_details res) = [''has_subtitles'', ''has_multiple_audio'', ''is_3d'',
          ''is_hdr'', ''year'', ''season_episode'']"
    using analyze_filename_fields[of fn] by auto
  obtain res' where res': "analyze_filename_u ascii fn = Inr res'" and
    f': "filename_u res' = fn"
      "file_type_u res' =
         (case first_label_u ascii format_patterns (lower_u ascii fn) of
            Some l \<Rightarrow> l | None \<Rightarrow> ''Unknown'')"
      "quality_u res' = first_label_u ascii quality_patterns (lower_u ascii fn)"
      "resolution_u res' = first_label_u ascii resolution_patterns (lower_u ascii fn)"
      "codec_u res' = first_label_u ascii video_codec_patterns (lower_u ascii fn)"
      "audio_codec_u res' = first_label_u ascii audio_codec_patterns (lower_u ascii fn)"
      "language_u res' = first_label_u ascii language_patterns (lower_u ascii fn)"
      "source_u res' = first_label_u ascii source_patterns (lower_u ascii fn)"
      and d': "map fst (format_details_u res') = [''has_subtitles'', ''has_multiple_audio'',
          ''is_3d'', ''is_hdr'', ''year'', ''season_episode'']"
    using analyze_filename_fields_u[of ascii fn] by auto
  from res res' f f' d d' show ?thesis
    by (simp add: first_label_ascii l)
qed


section \<open>C1: the first matching rule of a category wins\<close>

text \<open>
  C1. For every file name and every category, the label \<^verbatim>\<open>analyze_filename\<close> selects is the
  label of the earliest rule of that category's table whose pattern is found in the
  lower-cased name: a label is selected exactly when its rule matches and no rule before it
  does. When a rule matches, the label of a rule after it is never selected. This holds
  whatever the character database \<open>cc\<close> says of lower-casing, of word characters, of digits
  and of case-insensitive matching, so for names in any script.
\<close>

theorem first_match_wins:
  "\<exists>res. analyze_filename_u cc fn = Inr res \<and>
     (\<forall>c l. selected_u c res = Some l \<longleftrightarrow>
        (\<exists>i<length (rules c). fst (rules c ! i) = l \<and> rule_matches_u cc c i fn
           \<and> (\<forall>j<i. \<not> rule_matches_u cc c j fn))) \<and>
     (\<forall>c i j. i < j \<and> j < length (rules c) \<and> rule_matches_u cc c i fn \<longrightarrow>
        selected_u c res \<noteq> Some (fst (rules c ! j)))"
proof -
  obtain res where res: "analyze_filename_u cc fn = Inr res"
    using analyze_filename_fields_u[of cc fn] by blast
  have iff: "selected_u c res = Some l \<longleftrightarrow>
        (\<exists>i<length (rules c). fst (rules c ! i) = l \<and> rule_matches_u cc c i fn
           \<and> (\<forall>j<i. \<not> rule_matches_u cc c j fn))" for c l
    unfolding selected_first_label_u[OF res] rule_matches_u_def by (rule first_label_Some_iff_u)
  have later: "selected_u c res \<noteq> Some (fst (rules c ! j))"
    if ij: "i < j" "j < length (rules c)" "rule_matches_u cc c i fn" for c i j
  proof
    assume "selected_u c res = Some (fst (rules c ! j))"
    then obtain k where k: "k < length (rules c)" "fst (rules c ! k) = fst (rules c ! j)"
      "\<forall>j'<k. \<not> rule_matches_u cc c j' fn"
      unfolding iff by blast
    have "map fst (rules c) ! k = map fst (rules c) ! j" using k(1,2) ij(2) by simp
    moreover have "k < length (map fst (rules c))" "j < length (map fst (rules c))"
      using k(1) ij(2) by simp_all
    ultimately have "k = j"
      using labels_distinct[of c] nth_eq_iff_index_eq by blast
    with k(3) ij(1,3) show False by blast
  qed
  from res iff later show ?thesis by blast
qed

theorem first_match_wins_witness:
  "\<exists>res. analyze_filename_u ascii ''vp8.vp9'' = Inr res
     \<and> selected_u Video_Codec res = Some ''VP9'' \<and> selected_u Video_Codec res \<noteq> Some ''VP8''"
proof -
  from first_match_wins[of ascii "''vp8.vp9''"] obtain res where
    res: "analyze_filename_u ascii ''vp8.vp9'' = Inr res" and
    iff: "\<And>c l. selected_u c res = Some l \<longleftrightarrow>
        (\<exists>i<length (rules c). fst (rules c ! i) = l \<and> rule_matches_u ascii c i ''vp8.vp9''
           \<and> (\<forall>j<i. \<not> rule_matches_u ascii c j ''vp8.vp9''))" and
    later: "\<And>c i j. i < j \<and> j < length (rules c) \<and> rule_matches_u ascii c i ''vp8.vp9'' \<Longrightarrow>
        selected_u c res \<noteq> Some (fst (rules c ! j))"
    by blast
  have m2: "rule_matches_u ascii Video_Codec 2 ''vp8.vp9''" by code_simp
  have m0: "\<not> rule_matches_u ascii Video_Codec 0 ''vp8.vp9''" by code_simp
  have m1: "\<not> rule_matches_u ascii Video_Codec 1 ''vp8.vp9''" by code_simp
  have len: "length (rules Video_Codec) = 7"
    and l2: "fst (rules Video_Codec ! 2) = ''VP9''"
    and l3: "fst (rules Video_Codec ! 3) = ''VP8''"
    by (simp_all add: video_codec_patterns_def)
  have "\<forall>j<2. \<not> rule_matches_u ascii Video_Codec j ''vp8.vp9''"
    using m0 m1 by (auto simp: less_Suc_eq numeral_2_eq_2)
  with m2 l2 len have "selected_u Video_Codec res = Some ''VP9''"
    unfolding iff by (intro exI[of _ 2]) simp
  moreover have "selected_u Video_Codec res \<noteq> Some ''VP8''"
    using later[of 2 3 Video_Codec] m2 len l3 by simp
  ultimately show ?thesis using res by blast
qed

section \<open>C2: the analyzer returns, with declared labels only\<close>

text \<open>
  C2. For every input string, the empty one included, \<^verbatim>\<open>analyze_filename\<close> returns a result
  and raises nothing. The result holds the input as its file name; its \<^verbatim>\<open>file_type\<close> is
  \<^verbatim>\<open>Unknown\<close> or a label of the format table; each of quality, resolution, codec, audio
  codec, language and source is \<^verbatim>\<open>None\<close> or a label of its own table; and the details hold
  the six keys, four booleans and two optional strings. Every loop of the model is a
  recursive function that Isabelle accepted as terminating.
\<close>

theorem analyze_filename_total:
  "\<exists>res. analyze_filename fn = Inr res
     \<and> filename res = fn
     \<and> (file_type res = ''Unknown'' \<or> file_type res \<in> set (map fst format_patterns))
     \<and> (quality res = None \<or> (\<exists>l. quality res = Some l \<and> l \<in> set (map fst quality_patterns)))
     \<and> (resolution res = None
          \<or> (\<exists>l. resolution res = Some l \<and> l \<in> set (map fst resolution_patterns)))
     \<and> (codec res = None \<or> (\<exists>l. codec res = Some l \<and> l \<in> set (map fst video_codec_patterns)))
     \<and> (audio_codec res = None
          \<or> (\<exists>l. audio_codec res = Some l \<and> l \<in> set (map fst audio_codec_patterns)))
     \<and> (language res = None
          \<or> (\<exists>l. language res = Some l \<and> l \<in> set (map fst language_patterns)))
     \<and> (source res = None \<or> (\<exists>l. source res = Some l \<and> l \<in> set (map fst source_patterns)))
     \<and> (\<exists>subs multi three_d hdr year se.
           format_details res =
             [(''has_subtitles'', PBool subs), (''has_multiple_audio'', PBool multi),
              (''is_3d'', PBool three_d), (''is_hdr'', PBool hdr),
              (''year'', opt_str year), (''season_episode'', opt_str se)])"
proof -
  obtain res se where res: "analyze_filename fn = Inr res" "filename res = fn"
     "file_type res =
         (case first_label format_patterns (lower fn) of Some l \<Rightarrow> l | None \<Rightarrow> ''Unknown'')"
     "quality res = first_label quality_patterns (lower fn)"
     "resolution res = first_label resolution_patterns (lower fn)"
     "codec res = first_label video_codec_patterns (lower fn)"
     "audio_codec res = first_label audio_codec_patterns (lower fn)"
     "language res = first_label language_patterns (lower fn)"
     "source res = first_label source_patterns (lower fn)"
     "format_details res =
         [(''has_subtitles'', PBool (re_test False subtitles_pattern (lower fn))),
          (''has_multiple_audio'', PBool (re_test False multiple_audio_pattern (lower fn))),
          (''is_3d'', PBool (re_test False three_d_pattern (lower fn))),
          (''is_hdr'', PBool (re_test False hdr_pattern (lower fn))),
          (''year'', opt_str (extract_year fn)),
          (''season_episode'', opt_str se)]"
    using analyze_filename_fields[of fn] by blast
  have opt: "first_label T s = None \<or> (\<exists>l. first_label T s = Some l \<and> l \<in> set (map fst T))"
    for T s
    using first_label_in_labels[of T s] by (cases "first_label T s") auto
  have ft: "file_type res = ''Unknown'' \<or> file_type res \<in> set (map fst format_patterns)"
  proof (cases "first_label format_patterns (lower fn)")
    case None
    with res(3) show ?thesis by simp
  next
    case (Some l)
    with first_label_in_labels[OF Some] res(3) show ?thesis by simp
  qed
  have fd: "\<exists>subs multi three_d hdr year se.
           format_details res =
             [(''has_subtitles'', PBool subs), (''has_multiple_audio'', PBool multi),
              (''is_3d'', PBool three_d), (''is_hdr'', PBool hdr),
              (''year'', opt_str year), (''season_episode'', opt_str se)]"
    unfolding res(10) by blast
  have q: "quality res = None \<or> (\<exists>l. quality res = Some l \<and> l \<in> set (map fst quality_patterns))"
    unfolding res(4) by (rule opt)
  have r: "resolution res = None
          \<or> (\<exists>l. resolution res = Some l \<and> l \<in> set (map fst resolution_patterns))"
    unfolding res(5) by (rule opt)
  have c: "codec res = None \<or> (\<exists>l. codec res = Some l \<and> l \<in> set (map fst video_codec_patterns))"
    unfolding res(6) by (rule opt)
  have a: "audio_codec res = None
          \<or> (\<exists>l. audio_codec res = Some l \<and> l \<in> set (map fst audio_codec_patterns))"
    unfolding res(7) by (rule opt)
  have l: "language res = None
          \<or> (\<exists>l. language res = Some l \<and> l \<in> set (map fst language_patterns))"
    unfolding res(8) by (rule opt)
  have s: "source res = None \<or> (\<exists>l. source res = Some l \<and> l \<in> set (map fst source_patterns))"
    unfolding res(9) by (rule opt)
  from res(1,2) ft q r c a l s fd show ?thesis
    by (intro exI[of _ res] conjI)
qed

theorem analyze_filename_total_witness:
  "\<exists>res. analyze_filename [] = Inr res \<and> filename res = []
     \<and> (file_type res = ''Unknown'' \<or> file_type res \<in> set (map fst format_patterns))
     \<and> (quality res = None \<or> (\<exists>l. quality res = Some l \<and> l \<in> set (map fst quality_patterns)))"
  using analyze_filename_total[of "[]"] by blast

section \<open>C3: the year\<close>




section \<open>C4: season and episode\<close>

text \<open>
  C4 says the result shows the season and the episode numbers of the first pattern family
  that matches. The second pattern of the source, \<^verbatim>\<open>season.?(\d+).?episode.?(\d+)\<close>, lets one
  character of any kind stand before each number; that character is taken greedily, so
  when the number follows the word directly it is the first digit of the number that is
  taken, and the group keeps the rest. In \<^verbatim>\<open>Show.Season10.Episode20.mkv\<close> the first pattern
  finds nothing, the second finds \<^verbatim>\<open>season10.episode20\<close> with the groups \<^verbatim>\<open>0\<close> and \<^verbatim>\<open>0\<close>, and
  the analyzer reports \<^verbatim>\<open>S00E00\<close> for season 10, episode 20. With a separator before each
  number, as in \<^verbatim>\<open>Show.Season 10 Episode 20.mkv\<close>, it reports \<^verbatim>\<open>S10E20\<close>.
\<close>

theorem season_number_loses_its_first_digit:
  "(\<exists>res. analyze_filename ''Show.Season10.Episode20.mkv'' = Inr res
      \<and> map_of (format_details res) ''season_episode'' = Some (PStr ''S00E00''))
   \<and> re_search False (se_patterns ! 0) (lower ''Show.Season10.Episode20.mkv'') = None
   \<and> map_option (\<lambda>m. (m_text m, m_groups m 1, m_groups m 2))
        (re_search False (se_patterns ! 1) (lower ''Show.Season10.Episode20.mkv''))
      = Some (''season10.episode20'', Some ''0'', Some ''0'')
   \<and> extract_season_episode ''Show.Season 10 Episode 20.mkv'' = Inr (Some ''S10E20'')"
proof -
  have e: "extract_season_episode ''Show.Season10.Episode20.mkv'' = Inr (Some ''S00E00'')"
    by code_simp
  obtain res se where "analyze_filename ''Show.Season10.Episode20.mkv'' = Inr res"
    "extract_season_episode ''Show.Season10.Episode20.mkv'' = Inr se"
    "map_of (format_details res) ''season_episode'' = Some (opt_str se)"
    using analyze_filename_fields[of "''Show.Season10.Episode20.mkv''"] by auto
  with e have 1: "\<exists>res. analyze_filename ''Show.Season10.Episode20.mkv'' = Inr res
      \<and> map_of (format_details res) ''season_episode'' = Some (PStr ''S00E00'')"
    by (auto simp: opt_str_def)
  have 2: "re_search False (se_patterns ! 0) (lower ''Show.Season10.Episode20.mkv'') = None"
    by code_simp
  have 3: "map_option (\<lambda>m. (m_text m, m_groups m 1, m_groups m 2))
        (re_search False (se_patterns ! 1) (lower ''Show.Season10.Episode20.mkv''))
      = Some (''season10.episode20'', Some ''0'', Some ''0'')"
    by code_simp
  have 4: "extract_season_episode ''Show.Season 10 Episode 20.mkv'' = Inr (Some ''S10E20'')"
    by code_simp
  from 1 2 3 4 show ?thesis by blast
qed

section \<open>C5: the HDR flag and the dot of \<^verbatim>\<open>dolby.vision\<close>\<close>

text \<open>
  C5 says the flag \<^verbatim>\<open>is_hdr\<close> is set exactly for the whole words \<^verbatim>\<open>hdr\<close>, \<^verbatim>\<open>hdr10\<close> and
  \<^verbatim>\<open>dolby.vision\<close> with a literal dot. The pattern of the source leaves the dot unescaped,
  so any character but a newline may stand between \<^verbatim>\<open>dolby\<close> and \<^verbatim>\<open>vision\<close>: the name
  \<^verbatim>\<open>A.Dolby-Vision.mkv\<close> has none of the three words, the pattern with a literal dot does not
  match it, and the analyzer sets the flag.
\<close>

theorem hdr_dot_is_any_character:
  "\<exists>res. analyze_filename ''A.Dolby-Vision.mkv'' = Inr res
     \<and> map_of (format_details res) ''is_hdr'' = Some (PBool True)
     \<and> \<not> re_test False (words [''hdr'', ''hdr10'', ''dolby.vision''])
           (lower ''A.Dolby-Vision.mkv'')"
proof -
  have h: "re_test False hdr_pattern (lower ''A.Dolby-Vision.mkv'')" by code_simp
  obtain res where "analyze_filename ''A.Dolby-Vision.mkv'' = Inr res"
    "map_of (format_details res) ''is_hdr''
       = Some (PBool (re_test False hdr_pattern (lower ''A.Dolby-Vision.mkv'')))"
    using analyze_filename_fields[of "''A.Dolby-Vision.mkv''"] by auto
  moreover have "\<not> re_test False (words [''hdr'', ''hdr10'', ''dolby.vision''])
           (lower ''A.Dolby-Vision.mkv'')" by code_simp
  ultimately show ?thesis using h by auto
qed

section \<open>C6: the format depends on the extension only\<close>

text \<open>
  C6. Two file names with the same trailing extension segment get the same \<^verbatim>\<open>file_type\<close>
  from \<^verbatim>\<open>analyze_filename\<close>, whatever the rest of the names is. The other categories read
  the whole name: \<^verbatim>\<open>4k.mkv\<close> and \<^verbatim>\<open>x.mkv\<close> have the same extension and different
  resolutions.
\<close>

theorem format_depends_only_on_extension:
  "(extension a = extension b \<longrightarrow>
      (\<exists>ra rb. analyze_filename a = Inr ra \<and> analyze_filename b = Inr rb
         \<and> file_type ra = file_type rb))
   \<and> (\<exists>ra rb. extension ''4k.mkv'' = extension ''x.mkv''
         \<and> analyze_filename ''4k.mkv'' = Inr ra \<and> analyze_filename ''x.mkv'' = Inr rb
         \<and> resolution ra \<noteq> resolution rb)"
proof
  show "extension a = extension b \<longrightarrow>
      (\<exists>ra rb. analyze_filename a = Inr ra \<and> analyze_filename b = Inr rb
         \<and> file_type ra = file_type rb)"
  proof
    assume eq: "extension a = extension b"
    then have eq': "extension (lower a) = extension (lower b)" by (simp add: extension_lower)
    obtain ra where ra: "analyze_filename a = Inr ra" "file_type ra =
         (case first_label format_patterns (lower a) of Some l \<Rightarrow> l | None \<Rightarrow> ''Unknown'')"
      using analyze_filename_fields[of a] by blast
    obtain rb where rb: "analyze_filename b = Inr rb" "file_type rb =
         (case first_label format_patterns (lower b) of Some l \<Rightarrow> l | None \<Rightarrow> ''Unknown'')"
      using analyze_filename_fields[of b] by blast
    have "first_label format_patterns (lower a) = first_label format_patterns (lower b)"
      by (rule first_label_cong) (rule format_test_by_extension[OF _ eq'])
    with ra rb show "\<exists>ra rb. analyze_filename a = Inr ra \<and> analyze_filename b = Inr rb
         \<and> file_type ra = file_type rb" by auto
  qed
next
  obtain ra where ra: "analyze_filename ''4k.mkv'' = Inr ra"
    "resolution ra = first_label resolution_patterns (lower ''4k.mkv'')"
    using analyze_filename_fields[of "''4k.mkv''"] by blast
  obtain rb where rb: "analyze_filename ''x.mkv'' = Inr rb"
    "resolution rb = first_label resolution_patterns (lower ''x.mkv'')"
    using analyze_filename_fields[of "''x.mkv''"] by blast
  have 1: "first_label resolution_patterns (lower ''4k.mkv'') = Some ''4K''" by code_simp
  have 2: "first_label resolution_patterns (lower ''x.mkv'') = None" by code_simp
  have 3: "extension ''4k.mkv'' = extension ''x.mkv''" by (simp add: extension_def)
  from ra rb 1 2 3 show "\<exists>ra rb. extension ''4k.mkv'' = extension ''x.mkv''
         \<and> analyze_filename ''4k.mkv'' = Inr ra \<and> analyze_filename ''x.mkv'' = Inr rb
         \<and> resolution ra \<noteq> resolution rb" by auto
qed

theorem format_depends_only_on_extension_witness:
  "extension ''Movie.2023.1080p.BluRay.x264.mkv'' = extension ''holiday.MKV.mkv''
   \<and> (\<exists>ra rb. analyze_filename ''Movie.2023.1080p.BluRay.x264.mkv'' = Inr ra
         \<and> analyze_filename ''holiday.MKV.mkv'' = Inr rb \<and> file_type ra = file_type rb)"
proof -
  have h: "extension ''Movie.2023.1080p.BluRay.x264.mkv'' = extension ''holiday.MKV.mkv''"
    by (simp add: extension_def)
  from format_depends_only_on_extension[of "''Movie.2023.1080p.BluRay.x264.mkv''"
      "''holiday.MKV.mkv''"] h
  show ?thesis by blast
qed

section \<open>C7: the size of a file, scaled and formatted\<close>

text \<open>
  C7. \<^verbatim>\<open>format_file_size\<close> renders an unknown size as \<^verbatim>\<open>Unknown\<close> and 1536 bytes as
  \<^verbatim>\<open>1.5 KB\<close>. A positive byte count \<open>n\<close> whose float is \<open>f\<close> (the count itself below
  \<open>2 ^ 53\<close>) is divided by 1024 once per unit passed: with \<open>k\<close> the index of its unit among
  B, KB, MB, GB, TB, PB (the largest \<open>k \<le> 5\<close> with \<open>1024 ^ k \<le> n\<close>), the result is
  \<open>f / 1024 ^ k\<close> formatted with one decimal place, a space and the unit. The format with
  one decimal place prints the digits of the nearest tenth: an integer part, a dot and one
  digit, at most a twentieth away from the value.
\<close>

theorem format_file_size_scales:
  "format_file_size None = Inr ''Unknown''
   \<and> format_file_size (Some 1536) = Inr ''1.5 KB''
   \<and> (0 < n \<and> float_of_int n = Inr f \<and> k \<le> 5 \<and> (k = 0 \<or> 1024 ^ k \<le> n)
        \<and> (k = 5 \<or> n < 1024 ^ Suc k) \<longrightarrow>
        (n < 2 ^ 53 \<longrightarrow> f = of_int n)
        \<and> format_file_size (Some n) =
            Inr (fmt_1f (f / 1024 ^ k) @ '' ''
                 @ [''B'', ''KB'', ''MB'', ''GB'', ''TB'', ''PB''] ! k))
   \<and> (0 \<le> x \<longrightarrow>
        (\<exists>t. fmt_1f x = show_nat (t div 10) @ ''.'' @ [digit_char (t mod 10)]
           \<and> \<bar>of_nat t / 10 - x\<bar> \<le> 1 / 20))"
proof -
  have 1: "format_file_size None = Inr ''Unknown''" by (simp add: format_file_size_def)
  have 2: "format_file_size (Some 1536) = Inr ''1.5 KB''" by (rule format_file_size_1536)
  have 3: "(n < 2 ^ 53 \<longrightarrow> f = of_int n)
        \<and> format_file_size (Some n) =
            Inr (fmt_1f (f / 1024 ^ k) @ '' ''
                 @ [''B'', ''KB'', ''MB'', ''GB'', ''TB'', ''PB''] ! k)"
    if h: "0 < n \<and> float_of_int n = Inr f \<and> k \<le> 5 \<and> (k = 0 \<or> 1024 ^ k \<le> n)
        \<and> (k = 5 \<or> n < 1024 ^ Suc k)"
  proof
    show "n < 2 ^ 53 \<longrightarrow> f = of_int n"
      using float_of_int_small[of n] h by auto
    show "format_file_size (Some n) =
            Inr (fmt_1f (f / 1024 ^ k) @ '' ''
                 @ [''B'', ''KB'', ''MB'', ''GB'', ''TB'', ''PB''] ! k)"
      using h by (intro format_file_size_pos) blast+
  qed
  from 1 2 3 fmt_1f_shape[of x] show ?thesis by blast
qed


theorem format_file_size_scales_witness:
  "format_file_size (Some 3000000) = Inr ''2.9 MB''
   \<and> (\<exists>t. fmt_1f (5 / 4) = show_nat (t div 10) @ ''.'' @ [digit_char (t mod 10)]
         \<and> \<bar>of_nat t / 10 - (5 / 4 :: rat)\<bar> \<le> 1 / 20)"
proof -
  have f: "float_of_int 3000000 = Inr 3000000"
    using float_of_int_small[of 3000000] by simp
  have h: "(0::int) < 3000000 \<and> float_of_int 3000000 = Inr 3000000 \<and> (2::nat) \<le> 5
      \<and> ((2::nat) = 0 \<or> 1024 ^ 2 \<le> (3000000::int))
      \<and> ((2::nat) = 5 \<or> (3000000::int) < 1024 ^ Suc 2)"
    using f by simp
  have x: "(0::rat) \<le> 5 / 4" by simp
  have v: "fmt_1f (3000000 / 1024 ^ 2) = ''2.9''" by code_simp
  have u: "[''B'', ''KB'', ''MB'', ''GB'', ''TB'', ''PB''] ! 2 = ''MB''" by simp
  from format_file_size_scales[of 3000000 3000000 2 "5 / 4"] h x
  have "format_file_size (Some 3000000) =
            Inr (fmt_1f (3000000 / 1024 ^ 2) @ '' ''
                 @ [''B'', ''KB'', ''MB'', ''GB'', ''TB'', ''PB''] ! 2)"
    and "\<exists>t. fmt_1f (5 / 4) = show_nat (t div 10) @ ''.'' @ [digit_char (t mod 10)]
           \<and> \<bar>of_nat t / 10 - (5 / 4 :: rat)\<bar> \<le> 1 / 20"
    by blast+
  then show ?thesis unfolding v u by simp
qed

section \<open>C8: the report without a file information\<close>

text \<open>
  C8. For every analysis result, \<^verbatim>\<open>format_analysis_response\<close> with no file information
  returns a report and raises nothing. The report is the header followed by a rest, and the
  report with a file information, whenever its size can be formatted, is the same header and
  the same rest with only the file-size line and the MIME-type line between them.
\<close>

theorem response_without_file_info:
  "\<exists>post. format_analysis_response a None = Inr (report_header a @ post)
     \<and> (\<forall>fi. case format_file_size (file_size fi) of
                Inl e \<Rightarrow> format_analysis_response a (Some fi) = Inl e
              | Inr sz \<Rightarrow>
                  format_analysis_response a (Some fi) =
                    Inr (report_header a @ file_info_lines sz (mime_type fi) @ post))"
proof -
  have none0: "format_analysis_response a None = Inr (add_detected_metadata a (report_header a @ []))"
    by (simp only: format_analysis_response_def Let_def option.case report_header_def
          append_assoc append_Nil2)
  have none: "format_analysis_response a None = Inr (report_header a @ add_detected_metadata a [])"
    unfolding none0 by (simp only: add_detected_metadata_append)
  have some: "format_analysis_response a (Some fi) =
      Inr (report_header a @ file_info_lines sz (mime_type fi) @ add_detected_metadata a [])"
    if sz: "format_file_size (file_size fi) = Inr sz" for fi sz
  proof -
    have "format_analysis_response a (Some fi) =
        Inr (add_detected_metadata a ((report_header a @ file_info_lines sz (mime_type fi)) @ []))"
      by (simp only: format_analysis_response_def Let_def option.case sz sum.case
            report_header_def file_info_lines_def label_line_def append_assoc append_Nil2)
    then show ?thesis
      by (simp only: add_detected_metadata_append append_assoc)
  qed
  have err: "format_analysis_response a (Some fi) = Inl e"
    if "format_file_size (file_size fi) = Inl e" for fi e
    by (simp only: format_analysis_response_def Let_def option.case that sum.case)
  have "case format_file_size (file_size fi) of
                Inl e \<Rightarrow> format_analysis_response a (Some fi) = Inl e
              | Inr sz \<Rightarrow>
                  format_analysis_response a (Some fi) =
                    Inr (report_header a @ file_info_lines sz (mime_type fi)
                         @ add_detected_metadata a [])" for fi
    using some[of fi] err[of fi] by (cases "format_file_size (file_size fi)") simp_all
  with none show ?thesis by blast
qed

theorem response_without_file_info_witness:
  "\<exists>post.
     format_analysis_response
       \<lparr>filename = ''a.mkv'', file_type = ''MKV'', quality = Some ''CAM'', resolution = None,
        codec = None, audio_codec = None, language = None, source = None,
        format_details = [(''year'', PStr ''2019'')]\<rparr> None
       = Inr (report_header
         \<lparr>filename = ''a.mkv'', file_type = ''MKV'', quality = Some ''CAM'', resolution = None,
          codec = None, audio_codec = None, language = None, source = None,
          format_details = [(''year'', PStr ''2019'')]\<rparr> @ post)
     \<and> format_analysis_response
       \<lparr>filename = ''a.mkv'', file_type = ''MKV'', quality = Some ''CAM'', resolution = None,
        codec = None, audio_codec = None, language = None, source = None,
        format_details = [(''year'', PStr ''2019'')]\<rparr>
       (Some \<lparr>file_id = ''f1'', file_name = ''a.mkv'', file_size = Some 1536,
               mime_type = Some ''video/x-matroska'', file_unique_id = ''u1''\<rparr>)
       = Inr (report_header
         \<lparr>filename = ''a.mkv'', file_type = ''MKV'', quality = Some ''CAM'', resolution = None,
          codec = None, audio_codec = None, language = None, source = None,
          format_details = [(''year'', PStr ''2019'')]\<rparr>
         @ file_info_lines ''1.5 KB'' (Some ''video/x-matroska'') @ post)"
proof -
  let ?a = "\<lparr>filename = ''a.mkv'', file_type = ''MKV'', quality = Some ''CAM'',
        resolution = None, codec = None, audio_codec = None, language = None, source = None,
        format_details = [(''year'', PStr ''2019'')]\<rparr>"
  let ?fi = "\<lparr>file_id = ''f1'', file_name = ''a.mkv'', file_size = Some 1536,
               mime_type = Some ''video/x-matroska'', file_unique_id = ''u1''\<rparr>"
  have sz: "format_file_size (file_size ?fi) = Inr ''1.5 KB''"
    by (simp add: format_file_size_1536)
  have mt: "mime_type ?fi = Some ''video/x-matroska''" by simp
  from response_without_file_info[of ?a] obtain post where
    n: "format_analysis_response ?a None = Inr (report_header ?a @ post)" and
    s: "\<And>fi. case format_file_size (file_size fi) of
                Inl e \<Rightarrow> format_analysis_response ?a (Some fi) = Inl e
              | Inr sz \<Rightarrow>
                  format_analysis_response ?a (Some fi) =
                    Inr (report_header ?a @ file_info_lines sz (mime_type fi) @ post)"
    by blast
  from s[of ?fi] have "format_analysis_response ?a (Some ?fi) =
      Inr (report_header ?a @ file_info_lines ''1.5 KB'' (Some ''video/x-matroska'') @ post)"
    by (simp only: sz mt sum.case)
  with n show ?thesis by blast
qed

section \<open>C9: the label CAMRip is never selected\<close>

text \<open>
  C9. The first two rules of the quality table are CAM and CAMRip. Every string in which the
  pattern of CAMRip is found also has the pattern of CAM, which comes first, so for every
  input the quality \<^verbatim>\<open>analyze_filename\<close> selects is not CAMRip.
\<close>

theorem camrip_never_selected:
  "fst (quality_patterns ! 0) = ''CAM'' \<and> fst (quality_patterns ! 1) = ''CAMRip''
   \<and> (re_test True (snd (quality_patterns ! 1)) s \<longrightarrow> re_test True (snd (quality_patterns ! 0)) s)
   \<and> (\<exists>res. analyze_filename fn = Inr res \<and> quality res \<noteq> Some ''CAMRip'')"
proof -
  have l0: "fst (quality_patterns ! 0) = ''CAM''" and l1: "fst (quality_patterns ! 1) = ''CAMRip''"
    by (simp_all add: quality_patterns_def)
  obtain res where res: "analyze_filename fn = Inr res"
    and q: "quality res = first_label quality_patterns (lower fn)"
    using analyze_filename_fields[of fn] by blast
  have "quality res \<noteq> Some ''CAMRip''"
  proof
    assume "quality res = Some ''CAMRip''"
    then obtain i where i: "i < length quality_patterns" "fst (quality_patterns ! i) = ''CAMRip''"
      "re_test True (snd (quality_patterns ! i)) (lower fn)"
      "\<forall>j<i. \<not> re_test True (snd (quality_patterns ! j)) (lower fn)"
      unfolding q first_label_Some_iff by blast
    have len: "1 < length (map fst quality_patterns)" by (simp add: quality_patterns_def)
    have "map fst quality_patterns ! i = map fst quality_patterns ! 1"
      using i(1,2) l1 len by simp
    moreover have "i < length (map fst quality_patterns)" using i(1) by simp
    ultimately have "i = 1"
      using labels_distinct[of Quality] len nth_eq_iff_index_eq by fastforce
    with i(3,4) have "re_test True (snd (quality_patterns ! 1)) (lower fn)"
      and "\<not> re_test True (snd (quality_patterns ! 0)) (lower fn)" by simp_all
    with camrip_implies_cam show False by blast
  qed
  with res l0 l1 camrip_implies_cam[of s] show ?thesis by blast
qed

theorem camrip_never_selected_witness:
  "re_test True (snd (quality_patterns ! 1)) ''a.camrip''
   \<and> re_test True (snd (quality_patterns ! 0)) ''a.camrip''
   \<and> (\<exists>res. analyze_filename ''a.camrip'' = Inr res \<and> quality res \<noteq> Some ''CAMRip'')"
proof -
  have h: "re_test True (snd (quality_patterns ! 1)) ''a.camrip''" by code_simp
  from camrip_never_selected[of "''a.camrip''" "''a.camrip''"] h show ?thesis by blast
qed

section \<open>C10: a size of zero bytes\<close>

text \<open>
  C10. \<^verbatim>\<open>format_file_size\<close> applied to a size of exactly 0 returns \<^verbatim>\<open>Unknown\<close>, as it
  does for an absent size, and not \<^verbatim>\<open>0.0 B\<close>.
\<close>

theorem zero_bytes_unknown:
  "format_file_size (Some 0) = Inr ''Unknown''
     \<and> format_file_size (Some 0) = format_file_size None
     \<and> format_file_size (Some 0) \<noteq> Inr ''0.0 B''"
  by (simp add: format_file_size_def)


end
